theory Spec2Isabelle
  imports Main
begin

section \<open>Dates\<close>

text \<open>
  A JavaScript \<open>Date\<close> is read and written by the scheduler only through its local-time
  accessors (\<open>getDay\<close>, \<open>getDate\<close>/\<open>setDate\<close>, \<open>setHours\<close>). A date is modelled as the
  local wall-clock time value: milliseconds since local midnight of 1970-01-01 (a Thursday).
  The time zone offset is taken to be constant, so daylight-saving shifts are outside the model.
  The instants that the two processes read and emit, each in its own zone, come in the last
  section of the model.
\<close>

type_synonym date = int

definition msPerDay :: int where
  "msPerDay = 86400000"

definition Day :: "date \<Rightarrow> int" where
  "Day t = t div msPerDay"

definition TimeWithinDay :: "date \<Rightarrow> int" where
  "TimeWithinDay t = t mod msPerDay"

text \<open>\<open>d.getDay()\<close>: 0 is Sunday, 6 is Saturday.\<close>

definition getDay :: "date \<Rightarrow> int" where
  "getDay t = (Day t + 4) mod 7"

text \<open>
  \<open>d.setDate(d.getDate() + k)\<close>: the day of the month moves by \<open>k\<close>, the calendar
  normalises month overflow, the time of day is kept.
\<close>

definition addDays :: "date \<Rightarrow> int \<Rightarrow> date" where
  "addDays t k = t + k * msPerDay"

text \<open>\<open>d.setHours(h, m, s, ms)\<close>: same calendar day, given time of day.\<close>

definition setHours :: "date \<Rightarrow> int \<Rightarrow> int \<Rightarrow> int \<Rightarrow> int \<Rightarrow> date" where
  "setHours t h mi s ms = Day t * msPerDay + (((h * 60 + mi) * 60 + s) * 1000 + ms)"

text \<open>\<open>((6 - now.getDay()) + 7) % 7 || 7\<close>\<close>

definition daysUntilSat :: "date \<Rightarrow> int" where
  "daysUntilSat now = (let d = ((6 - getDay now) + 7) mod 7 in if d = 0 then 7 else d)"

text \<open>
  \<open>const start = new Date(now); start.setDate(now.getDate() + daysUntilSat);
  start.setHours(10, 0, 0, 0);\<close> (the same three statements in both generators).
\<close>

definition start :: "date \<Rightarrow> date" where
  "start now = setHours (addDays now (daysUntilSat now)) 10 0 0 0"

section \<open>Teams and the rotation\<close>

text \<open>\<open>type Team = { id: string; name: string }\<close>, the fields named \<open>team_id\<close> and \<open>team_name\<close>.\<close>

record team =
  team_id :: string
  team_name :: string

text \<open>The dummy team pushed onto an odd roster: \<open>{ id: 'BYE', name: 'BYE' }\<close>.\<close>

definition BYE :: team where
  "BYE = \<lparr>team_id = ''BYE'', team_name = ''BYE''\<rparr>"

text \<open>
  \<open>[rotation[0], ...rotation.slice(1).slice(-1), ...rotation.slice(1, -1)]\<close>.
  For \<open>x # xs\<close>, \<open>slice(1)\<close> is \<open>xs\<close>, \<open>slice(-1)\<close> of it is its last element as a list
  (empty when \<open>xs\<close> is), and \<open>slice(1, -1)\<close> is \<open>xs\<close> without its last element.
  On the empty array the source would read \<open>rotation[0]\<close> as \<open>undefined\<close>; both generators
  rotate only arrays of at least two entries (lemma \<open>length_rotation_at\<close> below).
\<close>

fun rotate_step :: "'a list \<Rightarrow> 'a list" where
  "rotate_step (x # xs) = x # drop (length xs - 1) xs @ take (length xs - 1) xs"
| "rotate_step [] = []"

section \<open>The client-side preview generator\<close>

text \<open>
  \<open>type FixturePreview\<close>. The field \<open>round\<close> is named \<open>round_no\<close>; \<open>scheduledAt\<close>, in the
  source the ISO string of the round's date, is that date: its wall-clock value in
  \<open>generateRoundRobinPreview\<close>, its instant in \<open>preview_in_zone\<close> below.
\<close>

record FixturePreview =
  round_no :: nat
  home :: team
  away :: team
  scheduledAt :: date

text \<open>
  The inner loop \<open>for (let i = 0; i < half; i++)\<close> of \<open>generateRoundRobinPreview\<close>:
  slot \<open>i\<close> pairs \<open>rotation[i]\<close> with \<open>rotation[n - 1 - i]\<close>, skips the pair when either
  identifier is \<open>'BYE'\<close>, and otherwise pushes a fixture onto \<open>schedule\<close>.
\<close>

function preview_slots ::
  "nat \<Rightarrow> nat \<Rightarrow> nat \<Rightarrow> team list \<Rightarrow> nat \<Rightarrow> date \<Rightarrow> FixturePreview list \<Rightarrow> FixturePreview list"
where
  "preview_slots i half n rotation round roundDate schedule =
     (if i < half then
        (let t1 = rotation ! i; t2 = rotation ! (n - 1 - i) in
         if team_id t1 = ''BYE'' \<or> team_id t2 = ''BYE''
         then preview_slots (i + 1) half n rotation round roundDate schedule
         else preview_slots (i + 1) half n rotation round roundDate
                (schedule @ [\<lparr>round_no = round + 1, home = t1, away = t2,
                               scheduledAt = roundDate\<rparr>]))
      else schedule)"
  by pat_completeness auto
termination
  by (relation "measure (\<lambda>(i, half, n, rotation, round, roundDate, schedule). half - i)") auto

declare preview_slots.simps [simp del]

text \<open>
  The outer loop \<open>for (let round = 0; round < rounds; round++)\<close>: the round's date is
  \<open>start\<close> (here the parameter \<open>start0\<close>) moved by \<open>round * 7\<close> days, then the slots are
  paired, then the rotation advances.
\<close>

function preview_rounds ::
  "nat \<Rightarrow> nat \<Rightarrow> nat \<Rightarrow> nat \<Rightarrow> date \<Rightarrow> team list \<Rightarrow> FixturePreview list \<Rightarrow> FixturePreview list"
where
  "preview_rounds round rounds half n start0 rotation schedule =
     (if round < rounds then
        (let roundDate = addDays start0 (int round * 7);
             schedule' = preview_slots 0 half n rotation round roundDate schedule
         in preview_rounds (round + 1) rounds half n start0 (rotate_step rotation) schedule')
      else schedule)"
  by pat_completeness auto
termination
  by (relation "measure (\<lambda>(round, rounds, half, n, start0, rotation, schedule). rounds - round)") auto

declare preview_rounds.simps [simp del]

text \<open>
  \<open>generateRoundRobinPreview(teams)\<close>, with the value of \<open>new Date()\<close> as the parameter
  \<open>now\<close>. \<open>half = n / 2\<close> is exact: \<open>n\<close> is even after the padding.
\<close>

definition generateRoundRobinPreview :: "date \<Rightarrow> team list \<Rightarrow> FixturePreview list" where
  "generateRoundRobinPreview now teams =
     (if length teams < 2 then []
      else
        (let items = (if length teams mod 2 = 1 then teams @ [BYE] else teams);
             n = length items;
             rounds = n - 1;
             half = n div 2
         in preview_rounds 0 rounds half n (start now) items []))"

section \<open>The server-side handler\<close>

text \<open>JSON values, numbers restricted to the integers.\<close>

datatype jvalue = JNull | JBool bool | JNum int | JStr string
  | JArr "jvalue list" | JObj "(string \<times> jvalue) list"

datatype fixture_status = SCHEDULED | POSTPONED | COMPLETED | CANCELLED

text \<open>
  The data of a \<open>prisma.fixture.create\<close> call, \<open>scheduledAt\<close> under the name of its column
  \<open>scheduled_at\<close>, and the status values of the schema's \<open>fixture_status\<close>.
\<close>

record fixture =
  leagueId :: jvalue
  homeTeamId :: string
  awayTeamId :: string
  scheduled_at :: date
  status :: fixture_status

record pair =
  homeId :: string
  awayId :: string

datatype http_error = HttpError string nat

text \<open>
  What a \<open>catch (err)\<close> sees of a thrown value: \<open>err?.message\<close>, if there is one.
  A call that may throw returns \<open>Inl\<close> of it. The handler's \<open>catch\<close> answers
  \<open>err?.message ?? 'Server error'\<close> with status 500.
\<close>

type_synonym thrown = "string option"

definition server_error :: "thrown \<Rightarrow> http_error" where
  "server_error err = HttpError (case err of Some message \<Rightarrow> message | None \<Rightarrow> ''Server error'') 500"

text \<open>JavaScript's \<open>!v\<close> on a field of the parsed request body (\<open>None\<close> is a missing field).\<close>

fun falsy :: "jvalue option \<Rightarrow> bool" where
  "falsy None = True"
| "falsy (Some JNull) = True"
| "falsy (Some (JBool b)) = (\<not> b)"
| "falsy (Some (JNum k)) = (k = 0)"
| "falsy (Some (JStr s)) = (s = [])"
| "falsy (Some (JArr vs)) = False"
| "falsy (Some (JObj fs)) = False"

text \<open>The inner loop of \<open>POST\<close>: the same pairing, collected as identifier pairs.\<close>

function POST_slots :: "nat \<Rightarrow> nat \<Rightarrow> nat \<Rightarrow> team list \<Rightarrow> pair list \<Rightarrow> pair list" where
  "POST_slots i half n rotation pairs =
     (if i < half then
        (let t1 = rotation ! i; t2 = rotation ! (n - 1 - i) in
         if team_id t1 = ''BYE'' \<or> team_id t2 = ''BYE''
         then POST_slots (i + 1) half n rotation pairs
         else POST_slots (i + 1) half n rotation
                (pairs @ [\<lparr>homeId = team_id t1, awayId = team_id t2\<rparr>]))
      else pairs)"
  by pat_completeness auto
termination
  by (relation "measure (\<lambda>(i, half, n, rotation, pairs). half - i)") auto

declare POST_slots.simps [simp del]

text \<open>
  \<open>for (const p of pairs)\<close>: one \<open>prisma.fixture.create\<close> per pair, the created row pushed
  onto \<open>createdFixtures\<close>. The storage service is an external collaborator: \<open>create\<close> is
  a parameter that returns the created row or throws, and a throw leaves the loops.
\<close>

fun persist ::
  "(fixture \<Rightarrow> thrown + fixture) \<Rightarrow> jvalue \<Rightarrow> date \<Rightarrow> pair list \<Rightarrow> fixture list
     \<Rightarrow> thrown + fixture list"
where
  "persist create lid roundDate [] createdFixtures = Inr createdFixtures"
| "persist create lid roundDate (p # ps) createdFixtures =
     (case create \<lparr>leagueId = lid, homeTeamId = homeId p, awayTeamId = awayId p,
                    scheduled_at = roundDate, status = SCHEDULED\<rparr> of
        Inl err \<Rightarrow> Inl err
      | Inr f \<Rightarrow> persist create lid roundDate ps (createdFixtures @ [f]))"

function POST_rounds ::
  "(fixture \<Rightarrow> thrown + fixture) \<Rightarrow> nat \<Rightarrow> nat \<Rightarrow> nat \<Rightarrow> nat \<Rightarrow> date \<Rightarrow> jvalue \<Rightarrow> team list
     \<Rightarrow> fixture list \<Rightarrow> thrown + fixture list"
where
  "POST_rounds create round rounds half n start0 lid rotation createdFixtures =
     (if round < rounds then
        (let roundDate = addDays start0 (int round * 7);
             pairs = POST_slots 0 half n rotation []
         in case persist create lid roundDate pairs createdFixtures of
              Inl err \<Rightarrow> Inl err
            | Inr createdFixtures' \<Rightarrow>
                POST_rounds create (round + 1) rounds half n start0 lid (rotate_step rotation)
                  createdFixtures')
      else Inr createdFixtures)"
  by pat_completeness auto
termination
  by (relation "measure (\<lambda>(create, round, rounds, half, n, start0, lid, rotation, cf).
        rounds - round)") auto

declare POST_rounds.simps [simp del]

text \<open>
  \<open>POST(req)\<close>, all of it inside \<open>try\<close>. \<open>req\<close> is the outcome of \<open>await req.json()\<close>:
  a throw, or the parsed body as a map from field names to values (of which the handler
  reads \<open>leagueId\<close> only; a body that is not an object has no fields, and reading a field
  of \<open>null\<close> throws). \<open>findMany\<close> stands for \<open>prisma.team.findMany\<close> with the handler's
  fixed ordering and selection: the teams of a league, ordered by name, or a throw. The result
  is the error response (text and status) or the JSON list of the created fixtures.
\<close>

definition POST ::
  "date \<Rightarrow> thrown + (string \<rightharpoonup> jvalue) \<Rightarrow> (jvalue \<Rightarrow> thrown + team list)
     \<Rightarrow> (fixture \<Rightarrow> thrown + fixture) \<Rightarrow> http_error + fixture list"
where
  "POST now req findMany create =
     (case req of
        Inl err \<Rightarrow> Inl (server_error err)
      | Inr body \<Rightarrow>
          if falsy (body ''leagueId'') then Inl (HttpError ''Missing leagueId'' 400)
          else
            (let lid = the (body ''leagueId'') in
             case findMany lid of
               Inl err \<Rightarrow> Inl (server_error err)
             | Inr teams \<Rightarrow>
                 if length teams < 2
                 then Inl (HttpError ''At least two teams are required'' 400)
                 else
                   (let items0 = map (\<lambda>t. \<lparr>team_id = team_id t, team_name = team_name t\<rparr>) teams;
                        items = (if length items0 mod 2 = 1 then items0 @ [BYE] else items0);
                        n = length items;
                        rounds = n - 1;
                        half = n div 2
                    in case POST_rounds create 0 rounds half n (start now) lid items [] of
                         Inl err \<Rightarrow> Inl (server_error err)
                       | Inr createdFixtures \<Rightarrow> Inr createdFixtures)))"

section \<open>Two processes, two time zones\<close>

text \<open>
  The preview runs in the browser, the handler on the server. Each calls \<open>new Date()\<close>, which
  is an instant (milliseconds since the epoch, UTC), reads and sets it through the local-time
  accessors of its own process, and emits instants again: the preview through
  \<open>roundDate.toISOString()\<close>, the handler by passing \<open>roundDate\<close> to the storage service.
  A process's zone is its offset from UTC in milliseconds, taken to be constant:
  \<open>LocalTime\<close> and \<open>UTC\<close> convert between an instant and the wall-clock value that the
  definitions above compute with.
\<close>

type_synonym zone = int

definition LocalTime :: "zone \<Rightarrow> date \<Rightarrow> date" where
  "LocalTime tz t = t + tz"

definition UTC :: "zone \<Rightarrow> date \<Rightarrow> date" where
  "UTC tz w = w - tz"

text \<open>
  \<open>generateRoundRobinPreview(teams)\<close> run at the instant \<open>t\<close> in a browser of zone \<open>tz\<close>:
  \<open>scheduledAt\<close> is the instant of the round's date.
\<close>

definition preview_in_zone :: "zone \<Rightarrow> date \<Rightarrow> team list \<Rightarrow> FixturePreview list" where
  "preview_in_zone tz t teams =
     map (\<lambda>f. f\<lparr>scheduledAt := UTC tz (scheduledAt f)\<rparr>)
       (generateRoundRobinPreview (LocalTime tz t) teams)"

text \<open>
  \<open>POST(req)\<close> run at the instant \<open>t\<close> on a server of zone \<open>tz\<close>: every
  \<open>prisma.fixture.create\<close> receives the instant of the round's date.
\<close>

definition POST_in_zone ::
  "zone \<Rightarrow> date \<Rightarrow> thrown + (string \<rightharpoonup> jvalue) \<Rightarrow> (jvalue \<Rightarrow> thrown + team list)
     \<Rightarrow> (fixture \<Rightarrow> thrown + fixture) \<Rightarrow> http_error + fixture list"
where
  "POST_in_zone tz t req findMany create =
     POST (LocalTime tz t) req findMany
       (\<lambda>d. create (d\<lparr>scheduled_at := UTC tz (scheduled_at d)\<rparr>))"

section \<open>Notions used to state and prove the properties\<close>

subsection \<open>What the loops compute\<close>

text \<open>The padded roster both generators call \<open>items\<close>.\<close>

definition items_of :: "team list \<Rightarrow> team list" where
  "items_of teams = (if length teams mod 2 = 1 then teams @ [BYE] else teams)"

text \<open>The rotation array at the start of round index \<open>k\<close>.\<close>

definition rotation_at :: "nat \<Rightarrow> 'a list \<Rightarrow> 'a list" where
  "rotation_at k items = (rotate_step ^^ k) items"

text \<open>The pairs \<open>(rotation[j], rotation[n - 1 - j])\<close> of the slots \<open>i \<le> j < half\<close>.\<close>

definition slot_pairs :: "nat \<Rightarrow> nat \<Rightarrow> nat \<Rightarrow> 'a list \<Rightarrow> ('a \<times> 'a) list" where
  "slot_pairs i half n rotation = map (\<lambda>j. (rotation ! j, rotation ! (n - 1 - j))) [i..<half]"

text \<open>A pair is kept when neither side carries the identifier \<open>'BYE'\<close>.\<close>

definition real_pair :: "team \<times> team \<Rightarrow> bool" where
  "real_pair p = (team_id (fst p) \<noteq> ''BYE'' \<and> team_id (snd p) \<noteq> ''BYE'')"

text \<open>The (home, away) pairs one round emits, in slot order.\<close>

definition matchups :: "nat \<Rightarrow> nat \<Rightarrow> team list \<Rightarrow> (team \<times> team) list" where
  "matchups half n rotation = filter real_pair (slot_pairs 0 half n rotation)"

text \<open>The object each generator builds from a kept pair.\<close>

definition preview_of :: "nat \<Rightarrow> date \<Rightarrow> team \<times> team \<Rightarrow> FixturePreview" where
  "preview_of k d p = \<lparr>round_no = k + 1, home = fst p, away = snd p, scheduledAt = d\<rparr>"

definition pair_of :: "team \<times> team \<Rightarrow> pair" where
  "pair_of p = \<lparr>homeId = team_id (fst p), awayId = team_id (snd p)\<rparr>"

definition fixture_of :: "jvalue \<Rightarrow> date \<Rightarrow> team \<times> team \<Rightarrow> fixture" where
  "fixture_of lid d p = \<lparr>leagueId = lid, homeTeamId = team_id (fst p),
                            awayTeamId = team_id (snd p), scheduled_at = d, status = SCHEDULED\<rparr>"

text \<open>
  The conditions under which the handler gets to schedule the roster \<open>teams\<close>: the request
  carries a \<open>leagueId\<close>, the storage service returns \<open>teams\<close> for it, and every created
  row comes back as the data it was created from (its generated columns are not modelled).
\<close>

definition serves ::
  "(string \<rightharpoonup> jvalue) \<Rightarrow> (jvalue \<Rightarrow> thrown + team list) \<Rightarrow> (fixture \<Rightarrow> thrown + fixture)
     \<Rightarrow> team list \<Rightarrow> bool"
where
  "serves body findMany create teams \<longleftrightarrow>
     \<not> falsy (body ''leagueId'') \<and> findMany (the (body ''leagueId'')) = Inr teams
     \<and> (\<forall>d. create d = Inr d)"

text \<open>The fixtures a response carries: none for an error response.\<close>

definition created :: "http_error + fixture list \<Rightarrow> fixture list" where
  "created r = (case r of Inl e \<Rightarrow> [] | Inr fs \<Rightarrow> fs)"

subsection \<open>Seats\<close>

text \<open>
  With \<open>m = n - 1\<close>, \<open>seat m k j\<close> is the index in \<open>items\<close> of the entry that sits at index
  \<open>j\<close> of the rotation in round \<open>k\<close>: index 0 never moves, the other \<open>m\<close> entries move one
  place to the right each round.
\<close>

definition seat :: "nat \<Rightarrow> nat \<Rightarrow> nat \<Rightarrow> nat" where
  "seat m k j = (if j = 0 then 0 else Suc ((k * (m - 1) + (j - 1)) mod m))"

text \<open>The index pairs of the \<open>h\<close> slots of round \<open>k\<close>, and of all \<open>2h - 1\<close> rounds.\<close>

definition round_slots :: "nat \<Rightarrow> nat \<Rightarrow> (nat \<times> nat) list" where
  "round_slots h k = map (\<lambda>i. (seat (2 * h - 1) k i, seat (2 * h - 1) k (2 * h - 1 - i))) [0..<h]"

definition all_slots :: "nat \<Rightarrow> (nat \<times> nat) list" where
  "all_slots h = concat (map (round_slots h) [0..<2 * h - 1])"

subsection \<open>Unordered pairs\<close>

definition upair :: "'a \<times> 'a \<Rightarrow> 'a set" where
  "upair p = {fst p, snd p}"

definition all_pairs :: "'a set \<Rightarrow> 'a set set" where
  "all_pairs A = {{a, b} | a b. a \<in> A \<and> b \<in> A \<and> a \<noteq> b}"

text \<open>The unordered pairs read off a list at the given index pairs, skipping the value \<open>B\<close>.\<close>

definition pairings :: "'a list \<Rightarrow> 'a \<Rightarrow> (nat \<times> nat) list \<Rightarrow> 'a set list" where
  "pairings xs B slots =
     map (\<lambda>p. {xs ! fst p, xs ! snd p}) (filter (\<lambda>p. xs ! fst p \<noteq> B \<and> xs ! snd p \<noteq> B) slots)"

text \<open>The two identifiers of an emitted matchup, as an unordered pair.\<close>

definition matchup_ids :: "FixturePreview \<Rightarrow> string set" where
  "matchup_ids f = {team_id (home f), team_id (away f)}"

definition fixture_ids :: "fixture \<Rightarrow> string set" where
  "fixture_ids f = {homeTeamId f, awayTeamId f}"

text \<open>What the two kinds of fixture have in common: home, away and date.\<close>

definition preview_triple :: "FixturePreview \<Rightarrow> string \<times> string \<times> date" where
  "preview_triple f = (team_id (home f), team_id (away f), scheduledAt f)"

definition fixture_triple :: "fixture \<Rightarrow> string \<times> string \<times> date" where
  "fixture_triple f = (homeTeamId f, awayTeamId f, scheduled_at f)"

text \<open>The pairing alone.\<close>

definition preview_pairing :: "FixturePreview \<Rightarrow> string \<times> string" where
  "preview_pairing f = (team_id (home f), team_id (away f))"

definition fixture_pairing :: "fixture \<Rightarrow> string \<times> string" where
  "fixture_pairing f = (homeTeamId f, awayTeamId f)"

subsection \<open>Example inputs\<close>

abbreviation mk_team :: "string \<Rightarrow> string \<Rightarrow> team" where
  "mk_team i n \<equiv> \<lparr>team_id = i, team_name = n\<rparr>"

abbreviation roster3 :: "team list" where
  "roster3 \<equiv> [mk_team ''A'' ''Ants'', mk_team ''B'' ''Bees'', mk_team ''C'' ''Cats'']"

abbreviation roster_bye2 :: "team list" where
  "roster_bye2 \<equiv> [mk_team ''A'' ''Ants'', mk_team ''BYE'' ''Byes'']"

abbreviation body1 :: "string \<rightharpoonup> jvalue" where
  "body1 \<equiv> [''leagueId'' \<mapsto> JStr ''L1'']"

abbreviation roster2 :: "team list" where
  "roster2 \<equiv> [mk_team ''A'' ''Ants'', mk_team ''B'' ''Bees'']"

abbreviation roster4 :: "team list" where
  "roster4 \<equiv> [mk_team ''A'' ''Ants'', mk_team ''B'' ''Bees'', mk_team ''C'' ''Cats'',
              mk_team ''D'' ''Dogs'']"

abbreviation roster_bye3 :: "team list" where
  "roster_bye3 \<equiv> [mk_team ''A'' ''Ants'', mk_team ''BYE'' ''Byes'', mk_team ''C'' ''Cats'']"

abbreviation body_with_policy :: "string \<rightharpoonup> jvalue" where
  "body_with_policy \<equiv> [''leagueId'' \<mapsto> JStr ''L1'', ''roundIntervalDays'' \<mapsto> JNum (- 7),
                        ''anchorWeekday'' \<mapsto> JNum 9]"

section \<open>The anchor date\<close>

lemma Day_addDays: "Day (addDays t k) = Day t + k"
  by (simp add: Day_def addDays_def msPerDay_def)

lemma TimeWithinDay_addDays: "TimeWithinDay (addDays t k) = TimeWithinDay t"
  by (simp add: TimeWithinDay_def addDays_def msPerDay_def)

lemma Day_setHours_10: "Day (setHours t 10 0 0 0) = Day t"
  by (simp add: Day_def setHours_def msPerDay_def)

lemma TimeWithinDay_setHours_10: "TimeWithinDay (setHours t 10 0 0 0) = 36000000"
  by (simp add: TimeWithinDay_def setHours_def msPerDay_def)

lemma Day_start: "Day (start now) = Day now + daysUntilSat now"
  by (simp add: start_def Day_setHours_10 Day_addDays)

lemma TimeWithinDay_start: "TimeWithinDay (start now) = 36000000"
  by (simp add: start_def TimeWithinDay_setHours_10)

lemma getDay_range: "0 \<le> getDay t \<and> getDay t \<le> 6"
  by (simp add: getDay_def)

lemma until_sat_arith:
  fixes g :: int
  assumes "0 \<le> g" "g \<le> 6"
  shows "(let d = ((6 - g) + 7) mod 7 in if d = 0 then 7 else d) = (if g = 6 then 7 else 6 - g)"
proof -
  have "((6 - g) + 7) mod 7 = (6 - g) mod 7" by (rule mod_add_self2)
  also have "\<dots> = 6 - g" using assms by simp
  finally show ?thesis using assms by (simp add: Let_def)
qed

lemma daysUntilSat_eq: "daysUntilSat now = (if getDay now = 6 then 7 else 6 - getDay now)"
  unfolding daysUntilSat_def using getDay_range [of now] by (intro until_sat_arith) simp_all

lemma daysUntilSat_range: "1 \<le> daysUntilSat now \<and> daysUntilSat now \<le> 7"
  unfolding daysUntilSat_eq using getDay_range [of now] by simp

lemma weekday_after_arith:
  fixes x :: int
  shows "(x + (if x mod 7 = 6 then 7 else 6 - x mod 7)) mod 7 = 6"
proof (cases "x mod 7 = 6")
  case True
  then show ?thesis by simp
next
  case False
  have "x + (6 - x mod 7) = 6 + (x div 7) * 7"
    using mult_div_mod_eq [of 7 x] by linarith
  then have "(x + (6 - x mod 7)) mod 7 = (6 + (x div 7) * 7) mod 7" by (rule arg_cong)
  also have "\<dots> = 6" by (simp only: mod_mult_self1) simp
  finally show ?thesis using False by simp
qed

lemma getDay_start: "getDay (start now) = 6"
proof -
  have "Day now + daysUntilSat now + 4 =
        (Day now + 4) + (if (Day now + 4) mod 7 = 6 then 7 else 6 - (Day now + 4) mod 7)"
    by (simp add: daysUntilSat_eq getDay_def)
  then show ?thesis
    unfolding getDay_def Day_start by (simp only: weekday_after_arith)
qed

lemma no_saturday_between:
  assumes "Day now < d" "d < Day (start now)"
  shows "(d + 4) mod 7 \<noteq> 6"
proof
  assume sat: "(d + 4) mod 7 = 6"
  have "(Day (start now) + 4) mod 7 = 6"
    using getDay_start [of now] by (simp add: getDay_def)
  with sat have "(Day (start now) + 4) mod 7 = (d + 4) mod 7" by simp
  then have "7 dvd (Day (start now) + 4) - (d + 4)" by (simp only: mod_eq_dvd_iff)
  then have dvd: "7 dvd Day (start now) - d" by simp
  have "0 < Day (start now) - d" using assms by simp
  moreover have "Day (start now) - d < 7"
    using assms daysUntilSat_range [of now] by (simp add: Day_start)
  ultimately show False using dvd zdvd_not_zless by blast
qed

text \<open>
  Claim C5. For every \<open>now\<close>, the first round's date is a Saturday at 10:00:00.000, on a
  calendar day strictly after the day of \<open>now\<close>, with no Saturday strictly between the two
  days: it is the next Saturday. From a Wednesday it is three days ahead; from a Saturday,
  at whatever time of day, it is seven days ahead and never the same day.
\<close>

theorem first_round_is_next_saturday:
  "getDay (start now) = 6 \<and> TimeWithinDay (start now) = 36000000
   \<and> Day now < Day (start now)
   \<and> (\<forall>d. Day now < d \<and> d < Day (start now) \<longrightarrow> (d + 4) mod 7 \<noteq> 6)
   \<and> (getDay now = 3 \<longrightarrow> Day (start now) = Day now + 3)
   \<and> (getDay now = 6 \<longrightarrow> Day (start now) = Day now + 7)"
proof -
  have "Day now < Day (start now)"
    using daysUntilSat_range [of now] by (simp add: Day_start)
  moreover have "getDay now = 3 \<longrightarrow> Day (start now) = Day now + 3"
    by (simp add: Day_start daysUntilSat_eq)
  moreover have "getDay now = 6 \<longrightarrow> Day (start now) = Day now + 7"
    by (simp add: Day_start daysUntilSat_eq)
  ultimately show ?thesis
    using getDay_start [of now] TimeWithinDay_start [of now] no_saturday_between [of now]
    by blast
qed

text \<open>
  The theorem at Wednesday 1970-01-07 09:30 and at Saturday 1970-01-03 10:00 sharp: both
  lead to Saturday 1970-01-10 10:00.
\<close>

theorem first_round_is_next_saturday_witness:
  "getDay 552600000 = 3 \<and> start 552600000 = 813600000 \<and> Day 813600000 = Day 552600000 + 3
   \<and> getDay 208800000 = 6 \<and> start 208800000 = 813600000 \<and> Day 813600000 = Day 208800000 + 7
   \<and> Day 208800000 < 5 \<and> 5 < Day (start 208800000) \<and> (5 + 4) mod 7 \<noteq> (6::int)"
  using first_round_is_next_saturday [of 552600000] first_round_is_next_saturday [of 208800000]
  by (simp add: getDay_def Day_def msPerDay_def start_def setHours_def addDays_def
      daysUntilSat_def)

section \<open>The loops, unfolded\<close>

lemma skip_iff: "(team_id a = ''BYE'' \<or> team_id b = ''BYE'') = (\<not> real_pair (a, b))"
  by (simp add: real_pair_def)

lemma rotation_at_0: "rotation_at 0 items = items"
  by (simp add: rotation_at_def)

lemma slot_pairs_step:
  "i < half \<Longrightarrow> slot_pairs i half n rot = (rot ! i, rot ! (n - 1 - i)) # slot_pairs (Suc i) half n rot"
  by (simp add: slot_pairs_def upt_conv_Cons)

lemma slot_pairs_done: "\<not> i < half \<Longrightarrow> slot_pairs i half n rot = []"
  by (simp add: slot_pairs_def)

lemma preview_slots_unfold:
  "preview_slots i half n rot k d sch =
     sch @ map (preview_of k d) (filter real_pair (slot_pairs i half n rot))"
proof (induction i half n rot k d sch rule: preview_slots.induct)
  case (1 i half n rotation round roundDate schedule)
  show ?case
  proof (cases "i < half")
    case True
    then show ?thesis
      using "1.IH"
      by (subst preview_slots.simps)
         (simp add: slot_pairs_step Let_def skip_iff preview_of_def)
  next
    case False
    then show ?thesis
      by (subst preview_slots.simps) (simp add: slot_pairs_done)
  qed
qed

lemma POST_slots_unfold:
  "POST_slots i half n rot pairs =
     pairs @ map pair_of (filter real_pair (slot_pairs i half n rot))"
proof (induction i half n rot pairs rule: POST_slots.induct)
  case (1 i half n rotation pairs)
  show ?case
  proof (cases "i < half")
    case True
    then show ?thesis
      using "1.IH"
      by (subst POST_slots.simps)
         (simp add: slot_pairs_step Let_def skip_iff pair_of_def)
  next
    case False
    then show ?thesis
      by (subst POST_slots.simps) (simp add: slot_pairs_done)
  qed
qed

lemma persist_unfold_stored:
  assumes "\<forall>d. create d = Inr (g d)"
  shows "persist create lid d (map pair_of ps) cf =
         Inr (cf @ map (\<lambda>p. g (fixture_of lid d p)) ps)"
  using assms by (induction ps arbitrary: cf) (simp_all add: fixture_of_def pair_of_def)

lemma persist_unfold:
  assumes "\<forall>d. create d = Inr d"
  shows "persist create lid d (map pair_of ps) cf = Inr (cf @ map (fixture_of lid d) ps)"
  using assms by (induction ps arbitrary: cf) (simp_all add: fixture_of_def pair_of_def)

lemma rotation_at_Suc: "rotation_at (Suc k) items = rotation_at k (rotate_step items)"
  by (simp add: rotation_at_def funpow_swap1)

lemma rounds_shift:
  "map (\<lambda>k. f k (rotation_at (k - Suc r) (rotate_step rot))) [Suc r..<rounds] =
   map (\<lambda>k. f k (rotation_at (k - r) rot)) [Suc r..<rounds]"
proof (rule map_cong [OF refl])
  fix k assume "k \<in> set [Suc r..<rounds]"
  then have "k - r = Suc (k - Suc r)" by auto
  then show "f k (rotation_at (k - Suc r) (rotate_step rot)) = f k (rotation_at (k - r) rot)"
    by (simp add: rotation_at_Suc)
qed

lemma rounds_concat_step:
  assumes "r < rounds"
  shows "concat (map (\<lambda>k. g k (rotation_at (k - r) rot)) [r..<rounds]) =
         g r rot @ concat (map (\<lambda>k. g k (rotation_at (k - Suc r) (rotate_step rot)))
                            [Suc r..<rounds])"
  using assms by (simp add: upt_conv_Cons rotation_at_0 rounds_shift [where f = g])

lemma preview_rounds_unfold:
  "preview_rounds r rounds half n s rot sch =
     sch @ concat (map (\<lambda>k. map (preview_of k (addDays s (int k * 7)))
                               (matchups half n (rotation_at (k - r) rot))) [r..<rounds])"
proof (induction r rounds half n s rot sch rule: preview_rounds.induct)
  case (1 round rounds half n start0 rotation schedule)
  show ?case
  proof (cases "round < rounds")
    case True
    let ?g = "\<lambda>k rot. map (preview_of k (addDays start0 (int k * 7))) (matchups half n rot)"
    let ?sch = "schedule @ ?g round rotation"
    have "preview_rounds round rounds half n start0 rotation schedule =
          preview_rounds (Suc round) rounds half n start0 (rotate_step rotation) ?sch"
      using True
      by (subst preview_rounds.simps) (simp add: Let_def preview_slots_unfold matchups_def)
    also have "\<dots> = ?sch @ concat (map (\<lambda>k. ?g k (rotation_at (k - Suc round)
                                  (rotate_step rotation))) [Suc round..<rounds])"
      using "1.IH" [OF True refl refl]
      by (simp add: preview_slots_unfold matchups_def)
    also have "\<dots> = schedule @ concat (map (\<lambda>k. ?g k (rotation_at (k - round) rotation))
                                  [round..<rounds])"
      by (simp only: rounds_concat_step [OF True, of ?g rotation] append_assoc)
    finally show ?thesis .
  next
    case False
    then show ?thesis by (subst preview_rounds.simps) simp
  qed
qed

lemma POST_rounds_unfold:
  assumes echo: "\<forall>d. create d = Inr d"
  shows "POST_rounds create r rounds half n s lid rot cf =
     Inr (cf @ concat (map (\<lambda>k. map (fixture_of lid (addDays s (int k * 7)))
                              (matchups half n (rotation_at (k - r) rot))) [r..<rounds]))"
  using echo
proof (induction create r rounds half n s lid rot cf rule: POST_rounds.induct)
  case (1 create round rounds half n start0 lid rotation createdFixtures)
  show ?case
  proof (cases "round < rounds")
    case True
    let ?g = "\<lambda>k rot. map (fixture_of lid (addDays start0 (int k * 7)))
                        (matchups half n rot)"
    let ?cf = "createdFixtures @ ?g round rotation"
    have step: "persist create lid (addDays start0 (int round * 7))
                  (POST_slots 0 half n rotation []) createdFixtures = Inr ?cf"
      using "1.prems" by (simp add: POST_slots_unfold persist_unfold matchups_def)
    have "POST_rounds create round rounds half n start0 lid rotation createdFixtures =
          POST_rounds create (Suc round) rounds half n start0 lid (rotate_step rotation) ?cf"
      using True step by (subst POST_rounds.simps) (simp add: Let_def)
    also have "\<dots> = Inr (?cf @ concat (map (\<lambda>k. ?g k (rotation_at (k - Suc round)
                                  (rotate_step rotation))) [Suc round..<rounds]))"
      using "1.IH" [OF True refl refl step "1.prems"] by simp
    also have "\<dots> = Inr (createdFixtures @ concat (map (\<lambda>k. ?g k (rotation_at (k - round) rotation))
                                  [round..<rounds]))"
      by (simp only: rounds_concat_step [OF True, of ?g rotation] append_assoc)
    finally show ?thesis .
  next
    case False
    then show ?thesis by (subst POST_rounds.simps) simp
  qed
qed

text \<open>The same unfolding for a storage service that returns \<open>g d\<close> for the data \<open>d\<close>.\<close>

lemma POST_rounds_unfold_stored:
  assumes stored: "\<forall>d. create d = Inr (g d)"
  shows "POST_rounds create r rounds half n s lid rot cf =
     Inr (cf @ concat (map (\<lambda>k. map (\<lambda>p. g (fixture_of lid (addDays s (int k * 7)) p))
                              (matchups half n (rotation_at (k - r) rot))) [r..<rounds]))"
  using stored
proof (induction create r rounds half n s lid rot cf rule: POST_rounds.induct)
  case (1 create round rounds half n start0 lid rotation createdFixtures)
  show ?case
  proof (cases "round < rounds")
    case True
    let ?g = "\<lambda>k rot. map (\<lambda>p. g (fixture_of lid (addDays start0 (int k * 7)) p))
                        (matchups half n rot)"
    let ?cf = "createdFixtures @ ?g round rotation"
    have step: "persist create lid (addDays start0 (int round * 7))
                  (POST_slots 0 half n rotation []) createdFixtures = Inr ?cf"
      using "1.prems" by (simp add: POST_slots_unfold persist_unfold_stored matchups_def)
    have "POST_rounds create round rounds half n start0 lid rotation createdFixtures =
          POST_rounds create (Suc round) rounds half n start0 lid (rotate_step rotation) ?cf"
      using True step by (subst POST_rounds.simps) (simp add: Let_def)
    also have "\<dots> = Inr (?cf @ concat (map (\<lambda>k. ?g k (rotation_at (k - Suc round)
                                  (rotate_step rotation))) [Suc round..<rounds]))"
      using "1.IH" [OF True refl refl step "1.prems"] by simp
    also have "\<dots> = Inr (createdFixtures @ concat (map (\<lambda>k. ?g k (rotation_at (k - round) rotation))
                                  [round..<rounds]))"
      by (simp only: rounds_concat_step [OF True, of ?g rotation] append_assoc)
    finally show ?thesis .
  next
    case False
    then show ?thesis by (subst POST_rounds.simps) simp
  qed
qed

section \<open>The rotation in closed form\<close>

lemma rotate_step_Cons: "rotate_step (x # xs) = x # rotate (length xs - 1) xs"
proof (cases "xs = []")
  case True
  then show ?thesis by simp
next
  case False
  then have "(length xs - 1) mod length xs = length xs - 1" by simp
  then show ?thesis by (simp add: rotate_drop_take)
qed

lemma rotation_at_Cons:
  "rotation_at k (x # xs) = x # rotate (k * (length xs - 1)) xs"
proof (induction k)
  case 0
  then show ?case by (simp add: rotation_at_def)
next
  case (Suc k)
  have "rotation_at (Suc k) (x # xs) = rotate_step (rotation_at k (x # xs))"
    by (simp add: rotation_at_def)
  then show ?case
    by (simp add: Suc rotate_step_Cons rotate_rotate del: rotate_step.simps)
qed

lemma rotation_at_Nil: "rotation_at k [] = []"
  by (induction k) (simp_all add: rotation_at_def)

lemma length_rotation_at: "length (rotation_at k items) = length items"
  by (cases items) (simp_all add: rotation_at_Cons rotation_at_Nil)

lemma rotation_at_nth:
  assumes "length items = Suc m" "j \<le> m"
  shows "rotation_at k items ! j = items ! seat m k j"
proof -
  obtain x xs where items: "items = x # xs" and len: "length xs = m"
    using assms(1) by (cases items) auto
  show ?thesis
  proof (cases j)
    case 0
    then show ?thesis by (simp add: items rotation_at_Cons seat_def)
  next
    case (Suc j')
    then have "j' < length xs" using assms(2) len by simp
    then show ?thesis
      by (simp add: items rotation_at_Cons seat_def Suc nth_rotate len)
  qed
qed

lemma slot_pairs_seats:
  assumes "length items = Suc m" "half \<le> Suc m"
  shows "slot_pairs 0 half (Suc m) (rotation_at k items) =
         map (\<lambda>i. (items ! seat m k i, items ! seat m k (m - i))) [0..<half]"
  unfolding slot_pairs_def using assms
  by (intro map_cong refl) (simp add: rotation_at_nth)

section \<open>Arithmetic of seats\<close>

lemma mod_eq_close:
  fixes a b M :: int
  assumes "a mod M = b mod M" "\<bar>a - b\<bar> < M"
  shows "a = b"
proof (rule ccontr)
  assume "a \<noteq> b"
  then have "a - b \<noteq> 0" by simp
  moreover have "M dvd a - b" using assms(1) by (simp only: mod_eq_dvd_iff)
  ultimately have "\<bar>M\<bar> \<le> \<bar>a - b\<bar>" by (rule dvd_imp_le_int)
  with assms(2) show False by simp
qed

lemma seat_0: "seat m k 0 = 0"
  by (simp add: seat_def)

lemma seat_int:
  assumes "0 < j" "0 < m"
  shows "int (seat m k j) = 1 + (int j - 1 - int k) mod int m"
proof -
  have a: "int (m - 1) = int m - 1" and b: "int (j - 1) = int j - 1"
    using assms by simp_all
  have "int (k * (m - 1) + (j - 1)) = int k * int (m - 1) + int (j - 1)"
    by simp
  also have "\<dots> = (int j - 1 - int k) + int k * int m"
    by (simp only: a b) (simp add: algebra_simps)
  finally have "int (k * (m - 1) + (j - 1)) = (int j - 1 - int k) + int k * int m" .
  then have "int ((k * (m - 1) + (j - 1)) mod m) = ((int j - 1 - int k) + int k * int m) mod int m"
    by (simp only: zmod_int)
  also have "\<dots> = (int j - 1 - int k) mod int m"
    by (rule mod_mult_self1)
  finally show ?thesis using assms by (simp add: seat_def)
qed

lemma seat_le: "0 < m \<Longrightarrow> seat m k j \<le> m"
  by (simp add: seat_def Suc_le_eq)

lemma seat_inj:
  assumes "0 < m" "j \<le> m" "j' \<le> m" "seat m k j = seat m k j'"
  shows "j = j'"
proof (cases "j = 0 \<or> j' = 0")
  case True
  then show ?thesis using assms(4) by (auto simp: seat_def split: if_splits)
next
  case False
  then have pos: "0 < j" "0 < j'" by simp_all
  have "(int j - 1 - int k) mod int m = (int j' - 1 - int k) mod int m"
    using assms(4) seat_int [OF pos(1) assms(1), of k] seat_int [OF pos(2) assms(1), of k]
    by simp
  moreover have "\<bar>(int j - 1 - int k) - (int j' - 1 - int k)\<bar> < int m"
    using assms(2,3) pos by simp
  ultimately have "int j - 1 - int k = int j' - 1 - int k" by (rule mod_eq_close)
  then show ?thesis by simp
qed

lemma seat_last:
  assumes "0 < m" "k < m"
  shows "seat m k m = m - k"
proof -
  have "int (seat m k m) = 1 + (int m - 1 - int k) mod int m"
    using assms by (simp add: seat_int)
  also have "(int m - 1 - int k) mod int m = int m - 1 - int k"
    using assms by simp
  finally show ?thesis using assms by simp
qed

text \<open>The two seats of a slot behind the first add up to a value that names the round.\<close>

lemma seat_sum:
  assumes "0 < i" "i < m"
  shows "(int (seat m k i) + int (seat m k (m - i))) mod int m = (- 2 * int k) mod int m"
proof -
  have m: "0 < m" using assms by simp
  have mi: "0 < m - i" using assms by simp
  have "(int (seat m k i) + int (seat m k (m - i))) mod int m =
        (2 + ((int i - 1 - int k) mod int m + (int (m - i) - 1 - int k) mod int m)) mod int m"
    by (simp add: seat_int [OF assms(1) m] seat_int [OF mi m])
  also have "\<dots> = (2 + ((int i - 1 - int k) + (int (m - i) - 1 - int k))) mod int m"
    by (metis mod_add_eq mod_add_right_eq)
  also have "(2 + ((int i - 1 - int k) + (int (m - i) - 1 - int k))) = - 2 * int k + 1 * int m"
    using assms by (simp add: of_nat_diff)
  also have "(- 2 * int k + 1 * int m) mod int m = (- 2 * int k) mod int m"
    by (rule mod_mult_self1)
  finally show ?thesis .
qed

lemma round_of_sum:
  assumes "odd m" "k < m" "k' < m" "(- 2 * int k) mod int m = (- 2 * int k') mod int m"
  shows "k = k'"
proof -
  have "int m dvd (- 2 * int k) - (- 2 * int k')"
    using assms(4) by (simp only: mod_eq_dvd_iff)
  moreover have "(- 2 * int k) - (- 2 * int k') = 2 * (int k' - int k)"
    by (simp add: algebra_simps)
  ultimately have "int m dvd 2 * (int k' - int k)" by (simp only:)
  moreover have cop: "coprime (int m) 2" using assms(1) by simp
  ultimately have "int m dvd int k' - int k"
    by (simp only: coprime_dvd_mult_right_iff [OF cop])
  then have "(int k') mod int m = int k mod int m"
    by (simp only: mod_eq_dvd_iff)
  then show ?thesis using assms(2,3) by simp
qed

lemma seat_pos: "0 < j \<Longrightarrow> 0 < seat m k j"
  by (simp add: seat_def)

lemma slot_seats_inj:
  assumes m: "m = 2 * h - 1" and h: "0 < h"
    and k: "k < m" "k' < m" and i: "i < h" "i' < h"
    and eq: "{seat m k i, seat m k (m - i)} = {seat m k' i', seat m k' (m - i')}"
  shows "k = k' \<and> i = i'"
proof -
  have m0: "0 < m" and oddm: "odd m" using m h by auto
  have far: "0 < m - i" "0 < m - i'" "i \<le> m" "i' \<le> m" using m i by auto
  show ?thesis
  proof (cases "i = 0")
    case True
    then have "0 \<in> {seat m k' i', seat m k' (m - i')}"
      using eq [symmetric] by (simp add: seat_0)
    then have i'0: "i' = 0"
      using seat_pos [of i' m k'] seat_pos [OF far(2), where k = k' and m = m] by (cases "i' = 0") auto
    have "{0, m - k} = {0, m - k'}"
      using eq True i'0 k m0 by (simp add: seat_0 seat_last)
    then have "m - k = m - k'" using k by (auto simp: doubleton_eq_iff)
    then show ?thesis using k True i'0 by simp
  next
    case False
    then have ipos: "0 < i" by simp
    have "0 \<notin> {seat m k i, seat m k (m - i)}"
      using seat_pos [OF ipos, of m k] seat_pos [OF far(1), where k = k and m = m] by simp
    then have "seat m k' i' \<noteq> 0" using eq by auto
    then have i'pos: "0 < i'" by (cases "i' = 0") (simp_all add: seat_0)
    have lt: "i < m" "i' < m" using m i ipos i'pos by auto
    have "seat m k i + seat m k (m - i) = seat m k' i' + seat m k' (m - i')"
      using eq by (auto simp: doubleton_eq_iff)
    then have "(int (seat m k i) + int (seat m k (m - i))) mod int m =
               (int (seat m k' i') + int (seat m k' (m - i'))) mod int m"
      by (metis of_nat_add)
    then have "(- 2 * int k) mod int m = (- 2 * int k') mod int m"
      by (simp only: seat_sum [OF ipos lt(1)] seat_sum [OF i'pos lt(2)])
    then have kk: "k = k'" using oddm k by (intro round_of_sum)
    have "seat m k i = seat m k i' \<or> seat m k i = seat m k (m - i')"
      using eq unfolding kk by (auto simp: doubleton_eq_iff)
    then have "i = i' \<or> i = m - i'"
      using seat_inj [OF m0 far(3) far(4), of k] seat_inj [OF m0 far(3), of "m - i'" k]
      by auto
    moreover have "i \<noteq> m - i'" using m i by auto
    ultimately show ?thesis using kk by simp
  qed
qed

lemma slot_seats_distinct:
  assumes m: "m = 2 * h - 1" and i: "i < h"
  shows "seat m k i \<noteq> seat m k (m - i)"
proof
  assume "seat m k i = seat m k (m - i)"
  moreover have "0 < m" "i \<le> m" "m - i \<le> m" using m i by auto
  ultimately have "i = m - i" by (intro seat_inj [of m i "m - i" k])
  then show False using m i by auto
qed

section \<open>Every pair of seats is used once\<close>

lemma all_slots_product:
  "all_slots h = map (\<lambda>(k, i). (seat (2 * h - 1) k i, seat (2 * h - 1) k (2 * h - 1 - i)))
                   (List.product [0..<2 * h - 1] [0..<h])"
  by (simp add: all_slots_def round_slots_def [abs_def] product_concat_map map_concat comp_def)

lemma length_all_slots: "length (all_slots h) = (2 * h - 1) * h"
  by (simp add: all_slots_product)

lemma distinct_upair_all_slots: "distinct (map upair (all_slots h))"
proof (cases "h = 0")
  case True
  then show ?thesis by (simp add: all_slots_def)
next
  case False
  then have h: "0 < h" by simp
  let ?m = "2 * h - 1"
  let ?F = "\<lambda>(k, i). upair (seat ?m k i, seat ?m k (?m - i))"
  have "inj_on ?F (set (List.product [0..<?m] [0..<h]))"
  proof (rule inj_onI)
    fix x y
    assume x: "x \<in> set (List.product [0..<?m] [0..<h])"
      and y: "y \<in> set (List.product [0..<?m] [0..<h])" and eq: "?F x = ?F y"
    obtain k i where xk: "x = (k, i)" by (cases x)
    obtain k' i' where yk: "y = (k', i')" by (cases y)
    have "k < ?m" "i < h" "k' < ?m" "i' < h" using x y xk yk by auto
    moreover have "{seat ?m k i, seat ?m k (?m - i)} = {seat ?m k' i', seat ?m k' (?m - i')}"
      using eq by (simp add: xk yk upair_def)
    ultimately have "k = k' \<and> i = i'"
      using h by (intro slot_seats_inj [of ?m h]) simp_all
    then show "x = y" by (simp add: xk yk)
  qed
  moreover have "distinct (List.product [0..<?m] [0..<h])"
    by (simp add: distinct_product)
  ultimately have "distinct (map ?F (List.product [0..<?m] [0..<h]))"
    by (simp add: distinct_map)
  moreover have "map upair (all_slots h) = map ?F (List.product [0..<?m] [0..<h])"
    by (simp add: all_slots_product comp_def case_prod_unfold)
  ultimately show ?thesis by simp
qed

lemma all_slots_range:
  assumes "p \<in> set (all_slots h)"
  shows "fst p \<le> 2 * h - 1 \<and> snd p \<le> 2 * h - 1 \<and> fst p \<noteq> snd p"
proof -
  obtain k i where "k < 2 * h - 1" "i < h"
    and p: "p = (seat (2 * h - 1) k i, seat (2 * h - 1) k (2 * h - 1 - i))"
    using assms by (auto simp: all_slots_def round_slots_def)
  moreover from this have "0 < 2 * h - 1" by simp
  ultimately show ?thesis
    using slot_seats_distinct [of "2 * h - 1" h i k] by (simp add: seat_le)
qed

lemma card_all_pairs:
  assumes "finite A"
  shows "card (all_pairs A) = card A * (card A - 1) div 2"
proof -
  have "all_pairs A = {s. s \<subseteq> A \<and> card s = 2}"
    unfolding all_pairs_def by (auto simp: card_2_iff)
  then show ?thesis using assms by (simp add: n_subsets choose_two)
qed

lemma finite_all_pairs: "finite A \<Longrightarrow> finite (all_pairs A)"
proof -
  assume "finite A"
  moreover have "all_pairs A \<subseteq> Pow A" by (auto simp: all_pairs_def)
  ultimately show ?thesis by (meson finite_Pow_iff finite_subset)
qed

lemma set_upair_all_slots:
  assumes "0 < h"
  shows "set (map upair (all_slots h)) = all_pairs {0..<2 * h}"
proof (rule card_subset_eq)
  show "finite (all_pairs {0..<2 * h})" by (simp add: finite_all_pairs)
  show "set (map upair (all_slots h)) \<subseteq> all_pairs {0..<2 * h}"
  proof
    fix s assume "s \<in> set (map upair (all_slots h))"
    then obtain p where p: "p \<in> set (all_slots h)" and s: "s = upair p" by auto
    have "fst p < 2 * h" "snd p < 2 * h" "fst p \<noteq> snd p"
      using all_slots_range [OF p] assms by auto
    then show "s \<in> all_pairs {0..<2 * h}"
      unfolding s upair_def all_pairs_def by auto
  qed
  have "card (set (map upair (all_slots h))) = length (map upair (all_slots h))"
    using distinct_upair_all_slots by (rule distinct_card)
  also have "\<dots> = (2 * h - 1) * h" by (simp add: length_all_slots)
  also have "\<dots> = card (all_pairs {0..<2 * h})"
    by (simp add: card_all_pairs)
  finally show "card (set (map upair (all_slots h))) = card (all_pairs {0..<2 * h})" .
qed

lemma all_pairsI: "a \<in> A \<Longrightarrow> b \<in> A \<Longrightarrow> a \<noteq> b \<Longrightarrow> {a, b} \<in> all_pairs A"
  by (auto simp: all_pairs_def)

lemma distinct_pairings:
  assumes "distinct xs" "length xs = 2 * h"
  shows "distinct (pairings xs B (all_slots h))"
proof -
  let ?P = "\<lambda>p. xs ! fst p \<noteq> B \<and> xs ! snd p \<noteq> B"
  let ?S = "filter ?P (all_slots h)"
  have eq: "pairings xs B (all_slots h) = map ((`) ((!) xs)) (map upair ?S)"
    by (simp add: pairings_def upair_def)
  have d: "distinct (map upair ?S)"
    using distinct_upair_all_slots by (rule distinct_map_filter)
  have "\<Union> (set (map upair ?S)) \<subseteq> {0..<length xs}"
  proof -
    have "fst p < length xs \<and> snd p < length xs" if "p \<in> set (all_slots h)" for p
    proof -
      have "0 < h" using that by (cases "h = 0") (simp_all add: all_slots_def)
      then show ?thesis using all_slots_range [OF that] assms(2) by auto
    qed
    then show ?thesis by (auto simp: upair_def)
  qed
  moreover have "inj_on ((!) xs) {0..<length xs}"
    using assms(1) by (auto simp: inj_on_def nth_eq_iff_index_eq)
  ultimately have "inj_on ((!) xs) (\<Union> (set (map upair ?S)))"
    by (rule inj_on_subset [rotated])
  then have "inj_on ((`) ((!) xs)) (set (map upair ?S))"
    by (rule inj_on_image)
  with d show ?thesis unfolding eq by (simp only: distinct_map)
qed

lemma set_pairings:
  assumes "distinct xs" "length xs = 2 * h" "0 < h"
  shows "set (pairings xs B (all_slots h)) = all_pairs (set xs - {B})"
proof (intro equalityI subsetI)
  fix s assume "s \<in> set (pairings xs B (all_slots h))"
  then obtain p where p: "p \<in> set (all_slots h)" "xs ! fst p \<noteq> B" "xs ! snd p \<noteq> B"
    and s: "s = {xs ! fst p, xs ! snd p}"
    by (auto simp: pairings_def)
  have r: "fst p < length xs" "snd p < length xs" "fst p \<noteq> snd p"
    using all_slots_range [OF p(1)] assms(2,3) by auto
  then have "xs ! fst p \<noteq> xs ! snd p"
    using assms(1) by (simp add: nth_eq_iff_index_eq)
  then show "s \<in> all_pairs (set xs - {B})"
    unfolding s using p(2,3) r by (intro all_pairsI) simp_all
next
  fix s assume "s \<in> all_pairs (set xs - {B})"
  then obtain a b where s: "s = {a, b}" and ab: "a \<in> set xs" "b \<in> set xs" "a \<noteq> B" "b \<noteq> B" "a \<noteq> b"
    by (auto simp: all_pairs_def)
  obtain p q where pq: "p < length xs" "xs ! p = a" "q < length xs" "xs ! q = b"
    using ab(1,2) by (auto simp: in_set_conv_nth)
  have "p \<noteq> q" using pq ab(5) by auto
  then have "{p, q} \<in> all_pairs {0..<2 * h}"
    using pq assms(2) by (intro all_pairsI) simp_all
  then have "{p, q} \<in> set (map upair (all_slots h))"
    by (simp only: set_upair_all_slots [OF assms(3)])
  then obtain sl where sl: "sl \<in> set (all_slots h)" "{fst sl, snd sl} = {p, q}"
    by (auto simp: upair_def)
  then have "(fst sl = p \<and> snd sl = q) \<or> (fst sl = q \<and> snd sl = p)"
    by (auto simp: doubleton_eq_iff)
  then have "{xs ! fst sl, xs ! snd sl} = s \<and> xs ! fst sl \<noteq> B \<and> xs ! snd sl \<noteq> B"
    using pq ab s by auto
  then show "s \<in> set (pairings xs B (all_slots h))"
    using sl(1) by (force simp: pairings_def)
qed

section \<open>The generators in terms of seats\<close>

lemma length_items_of:
  "length (items_of teams) = 2 * ((length teams + 1) div 2)"
  unfolding items_of_def by (cases "length teams mod 2 = 1") (simp, presburger)+

lemma preview_shape:
  assumes "2 \<le> length teams"
  shows "generateRoundRobinPreview now teams =
     concat (map (\<lambda>k. map (preview_of k (addDays (start now) (int k * 7)))
                      (matchups (length (items_of teams) div 2) (length (items_of teams))
                         (rotation_at k (items_of teams))))
               [0..<length (items_of teams) - 1])"
  using assms
  by (simp add: generateRoundRobinPreview_def Let_def preview_rounds_unfold items_of_def)

lemma copy_teams: "map (\<lambda>t. \<lparr>team_id = team_id t, team_name = team_name t\<rparr>) teams = teams"
  by (induction teams) simp_all

lemma POST_shape:
  assumes "serves body findMany create teams" "2 \<le> length teams"
  shows "POST now (Inr body) findMany create =
     Inr (concat (map (\<lambda>k. map (fixture_of (the (body ''leagueId'')) (addDays (start now) (int k * 7)))
                      (matchups (length (items_of teams) div 2) (length (items_of teams))
                         (rotation_at k (items_of teams))))
               [0..<length (items_of teams) - 1]))"
  using assms
  by (simp add: serves_def POST_def Let_def POST_rounds_unfold copy_teams items_of_def)

lemma matchups_by_seats:
  assumes "length items = 2 * h" "0 < h"
  shows "matchups h (2 * h) (rotation_at k items) =
         map (\<lambda>p. (items ! fst p, items ! snd p))
           (filter (\<lambda>p. team_id (items ! fst p) \<noteq> ''BYE'' \<and> team_id (items ! snd p) \<noteq> ''BYE'')
              (round_slots h k))"
proof -
  have "length items = Suc (2 * h - 1)" "h \<le> Suc (2 * h - 1)" "2 * h = Suc (2 * h - 1)"
    using assms by simp_all
  then have "slot_pairs 0 h (2 * h) (rotation_at k items) =
        map (\<lambda>p. (items ! fst p, items ! snd p)) (round_slots h k)"
    using slot_pairs_seats [of items "2 * h - 1" h k]
    by (simp add: round_slots_def comp_def)
  then show ?thesis
    by (simp add: matchups_def filter_map comp_def real_pair_def)
qed

lemma pairings_map:
  assumes "\<forall>p\<in>set slots. fst p < length xs \<and> snd p < length xs"
  shows "pairings (map f xs) B slots =
         map (\<lambda>p. {f (xs ! fst p), f (xs ! snd p)})
           (filter (\<lambda>p. f (xs ! fst p) \<noteq> B \<and> f (xs ! snd p) \<noteq> B) slots)"
  using assms by (induction slots) (simp_all add: pairings_def)

lemma pairings_concat: "pairings xs B (concat xss) = concat (map (pairings xs B) xss)"
  by (induction xss) (simp_all add: pairings_def)

lemma round_slots_range:
  assumes "0 < h" "p \<in> set (round_slots h k)"
  shows "fst p < 2 * h \<and> snd p < 2 * h"
proof -
  have "0 < 2 * h - 1" using assms(1) by simp
  then have "seat (2 * h - 1) k j < 2 * h" for j
    using seat_le [of "2 * h - 1" k j] by simp
  then show ?thesis using assms(2) by (auto simp: round_slots_def)
qed

lemma round_pairings:
  assumes "length items = 2 * h" "0 < h"
  shows "map (\<lambda>p. {team_id (fst p), team_id (snd p)}) (matchups h (2 * h) (rotation_at k items)) =
         pairings (map team_id items) ''BYE'' (round_slots h k)"
proof -
  have "\<forall>p\<in>set (round_slots h k). fst p < length items \<and> snd p < length items"
    using round_slots_range [OF assms(2)] assms(1) by simp
  then show ?thesis
    by (simp add: pairings_map matchups_by_seats [OF assms] comp_def)
qed

lemma items_of_half:
  assumes "2 \<le> length teams"
  shows "length (items_of teams) = 2 * (length (items_of teams) div 2)"
    and "0 < length (items_of teams) div 2"
  using assms by (simp_all add: length_items_of)

lemma preview_pairings:
  assumes "2 \<le> length teams"
  shows "map matchup_ids (generateRoundRobinPreview now teams) =
         pairings (map team_id (items_of teams)) ''BYE'' (all_slots (length (items_of teams) div 2))"
proof -
  let ?items = "items_of teams"
  let ?h = "length ?items div 2"
  note h = items_of_half [OF assms]
  have "map matchup_ids (generateRoundRobinPreview now teams) =
        concat (map (\<lambda>k. map (\<lambda>p. {team_id (fst p), team_id (snd p)})
                          (matchups ?h (2 * ?h) (rotation_at k ?items))) [0..<2 * ?h - 1])"
    unfolding preview_shape [OF assms] h(1) [symmetric]
    by (simp add: map_concat comp_def matchup_ids_def preview_of_def)
  also have "\<dots> = concat (map (\<lambda>k. pairings (map team_id ?items) ''BYE'' (round_slots ?h k))
                        [0..<2 * ?h - 1])"
    by (simp only: round_pairings [OF h])
  also have "\<dots> = pairings (map team_id ?items) ''BYE'' (all_slots ?h)"
    by (simp add: all_slots_def pairings_concat comp_def)
  finally show ?thesis .
qed

lemma POST_pairings:
  assumes "serves body findMany create teams"
    "2 \<le> length teams"
  shows "map fixture_ids (created (POST now (Inr body) findMany create)) =
         pairings (map team_id (items_of teams)) ''BYE'' (all_slots (length (items_of teams) div 2))"
proof -
  let ?items = "items_of teams"
  let ?h = "length ?items div 2"
  note h = items_of_half [OF assms(2)]
  have "map fixture_ids (created (POST now (Inr body) findMany create)) =
        concat (map (\<lambda>k. map (\<lambda>p. {team_id (fst p), team_id (snd p)})
                          (matchups ?h (2 * ?h) (rotation_at k ?items))) [0..<2 * ?h - 1])"
    unfolding POST_shape [OF assms] h(1) [symmetric]
    by (simp add: created_def map_concat comp_def fixture_ids_def fixture_of_def)
  also have "\<dots> = concat (map (\<lambda>k. pairings (map team_id ?items) ''BYE'' (round_slots ?h k))
                        [0..<2 * ?h - 1])"
    by (simp only: round_pairings [OF h])
  also have "\<dots> = pairings (map team_id ?items) ''BYE'' (all_slots ?h)"
    by (simp add: all_slots_def pairings_concat comp_def)
  finally show ?thesis .
qed

section \<open>Coverage: every pair of teams meets once\<close>

lemma items_ids:
  assumes "distinct (map team_id teams)" "''BYE'' \<notin> set (map team_id teams)"
  shows "distinct (map team_id (items_of teams))"
    and "set (map team_id (items_of teams)) - {''BYE''} = set (map team_id teams)"
  using assms by (auto simp: items_of_def BYE_def)

lemma cover_from_pairings:
  assumes "2 \<le> length teams" "distinct (map team_id teams)"
    "''BYE'' \<notin> set (map team_id teams)"
    and out: "map key out = pairings (map team_id (items_of teams)) ''BYE''
                (all_slots (length (items_of teams) div 2))"
  shows "distinct (map key out) \<and> set (map key out) = all_pairs (set (map team_id teams))
         \<and> length out = length teams * (length teams - 1) div 2"
proof -
  let ?ids = "map team_id (items_of teams)"
  let ?h = "length (items_of teams) div 2"
  note h = items_of_half [OF assms(1)]
  note ids = items_ids [OF assms(2,3)]
  have len: "length ?ids = 2 * ?h" using h(1) by simp
  have d: "distinct (map key out)"
    unfolding out using ids(1) len by (rule distinct_pairings)
  have s: "set (map key out) = all_pairs (set (map team_id teams))"
    unfolding out set_pairings [OF ids(1) len h(2)] ids(2) ..
  have "length out = length (map key out)" by simp
  also have "\<dots> = card (set (map key out))" using d by (simp only: distinct_card)
  also have "\<dots> = card (set (map team_id teams)) * (card (set (map team_id teams)) - 1) div 2"
    unfolding s by (simp add: card_all_pairs)
  also have "card (set (map team_id teams)) = length teams"
    using assms(2) distinct_card [of "map team_id teams"] by simp
  finally show ?thesis using d s by simp
qed

text \<open>
  Claim C1, amended. For every roster of at least two teams with pairwise-distinct identifiers,
  none of which is the reserved identifier \<open>'BYE'\<close>, the matchups of the whole schedule, read
  as unordered pairs of identifiers, form a list without repetition whose members are exactly
  the unordered pairs of distinct team identifiers; there are \<open>n * (n - 1) / 2\<close> of them.
  This holds for the preview and for the fixtures the handler creates.
\<close>

theorem every_pair_exactly_once:
  assumes "2 \<le> length teams" "distinct (map team_id teams)"
    "''BYE'' \<notin> set (map team_id teams)"
  shows "distinct (map matchup_ids (generateRoundRobinPreview now teams))
       \<and> set (map matchup_ids (generateRoundRobinPreview now teams)) =
           {{a, b} | a b. a \<in> set (map team_id teams) \<and> b \<in> set (map team_id teams) \<and> a \<noteq> b}
       \<and> length (generateRoundRobinPreview now teams) = length teams * (length teams - 1) div 2
       \<and> (serves body findMany create teams \<longrightarrow>
            distinct (map fixture_ids (created (POST now (Inr body) findMany create)))
          \<and> set (map fixture_ids (created (POST now (Inr body) findMany create))) =
              {{a, b} | a b. a \<in> set (map team_id teams) \<and> b \<in> set (map team_id teams) \<and> a \<noteq> b}
          \<and> length (created (POST now (Inr body) findMany create)) = length teams * (length teams - 1) div 2)"
proof -
  have p: "distinct (map matchup_ids (generateRoundRobinPreview now teams))
       \<and> set (map matchup_ids (generateRoundRobinPreview now teams)) =
           all_pairs (set (map team_id teams))
       \<and> length (generateRoundRobinPreview now teams) = length teams * (length teams - 1) div 2"
    using assms preview_pairings [OF assms(1)] by (rule cover_from_pairings)
  have s: "distinct (map fixture_ids (created (POST now (Inr body) findMany create)))
          \<and> set (map fixture_ids (created (POST now (Inr body) findMany create))) =
              all_pairs (set (map team_id teams))
          \<and> length (created (POST now (Inr body) findMany create)) = length teams * (length teams - 1) div 2"
    if "serves body findMany create teams"
    using assms POST_pairings [OF that assms(1)]
    by (rule cover_from_pairings)
  have E: "{{a, b} | a b. a \<in> set (map team_id teams) \<and> b \<in> set (map team_id teams) \<and> a \<noteq> b} =
           all_pairs (set (map team_id teams))"
    by (simp only: all_pairs_def)
  show ?thesis unfolding E using p s by blast
qed

text \<open>The theorem at a roster of three teams: three matchups on either path.\<close>

theorem every_pair_exactly_once_witness:
  "2 \<le> length roster3 \<and> distinct (map team_id roster3) \<and> ''BYE'' \<notin> set (map team_id roster3)
   \<and> serves body1 (\<lambda>l. Inr roster3) Inr roster3
   \<and> length (generateRoundRobinPreview 0 roster3) = 3
   \<and> length (created (POST 0 (Inr body1) (\<lambda>l. Inr roster3) Inr)) = 3"
proof -
  have h: "2 \<le> length roster3" "distinct (map team_id roster3)"
    "''BYE'' \<notin> set (map team_id roster3)"
    by simp_all
  have b: "serves body1 (\<lambda>l. Inr roster3) Inr roster3"
    by (simp add: serves_def)
  note t = every_pair_exactly_once [OF h, where now = 0 and body = body1
      and findMany = "\<lambda>l. Inr roster3" and create = Inr]
  have "length (generateRoundRobinPreview 0 roster3) = length roster3 * (length roster3 - 1) div 2"
    using t by blast
  moreover have "length (created (POST 0 (Inr body1) (\<lambda>l. Inr roster3) Inr)) =
                 length roster3 * (length roster3 - 1) div 2"
    using t b by blast
  ultimately show ?thesis using h b by simp
qed

text \<open>
  The claim as first stated, without the condition on \<open>'BYE'\<close>, fails: two teams with distinct
  identifiers, one of them \<open>'BYE'\<close>, get no matchup at all, where one was due.
\<close>

theorem coverage_fails_counterexample:
  "2 \<le> length roster_bye2 \<and> distinct (map team_id roster_bye2)
   \<and> generateRoundRobinPreview 0 roster_bye2 = []
   \<and> POST 0 (Inr body1) (\<lambda>l. Inr roster_bye2) Inr = Inr []"
  by code_simp

section \<open>Preview and handler, dates, determinism, errors\<close>

lemma preview_short: "length teams < 2 \<Longrightarrow> generateRoundRobinPreview now teams = []"
  by (simp add: generateRoundRobinPreview_def)

lemma POST_short:
  assumes "serves body findMany create teams" "length teams < 2"
  shows "POST now (Inr body) findMany create =
         Inl (HttpError ''At least two teams are required'' 400)"
  using assms by (simp add: serves_def POST_def Let_def)

lemma POST_missing:
  "falsy (body ''leagueId'') \<Longrightarrow> POST now (Inr body) findMany create = Inl (HttpError ''Missing leagueId'' 400)"
  by (simp add: POST_def)

lemma triples_agree:
  assumes "serves body findMany create teams"
  shows "map fixture_triple (created (POST now (Inr body) findMany create)) =
         map preview_triple (generateRoundRobinPreview now teams)"
proof (cases "2 \<le> length teams")
  case True
  show ?thesis
    unfolding POST_shape [OF assms True] preview_shape [OF True]
    by (simp add: created_def map_concat comp_def fixture_triple_def preview_triple_def
        fixture_of_def preview_of_def)
next
  case False
  then have "length teams < 2" by simp
  then show ?thesis
    using POST_short [OF assms]
    by (simp add: preview_short created_def)
qed

lemma preview_dates:
  assumes "f \<in> set (generateRoundRobinPreview now teams)"
  shows "1 \<le> round_no f \<and> scheduledAt f = addDays (start now) (int (round_no f - 1) * 7)"
proof (cases "2 \<le> length teams")
  case True
  then show ?thesis
    using assms unfolding preview_shape [OF True] by (auto simp: preview_of_def)
next
  case False
  then show ?thesis using assms by (simp add: preview_short)
qed

lemma addDays_inj: "addDays s (int k * 7) = addDays s (int k' * 7) \<longleftrightarrow> k = k'"
  by (simp add: addDays_def msPerDay_def)

lemma start_cong:
  assumes "Day now = Day now'"
  shows "start now = start now'"
proof -
  have "getDay now = getDay now'" using assms by (simp add: getDay_def)
  then have "daysUntilSat now = daysUntilSat now'" by (simp add: daysUntilSat_def)
  moreover have "start t = (Day t + daysUntilSat t) * msPerDay + 36000000" for t
    using Day_addDays [of t "daysUntilSat t"] by (simp add: start_def setHours_def)
  ultimately show ?thesis using assms by simp
qed

lemma filter_chunk_at:
  assumes "distinct ks" "inj c"
    and "\<And>k x. k \<in> set ks \<Longrightarrow> x \<in> set (g k) \<Longrightarrow> key x = c k"
  shows "filter (\<lambda>x. key x = c j) (concat (map g ks)) = (if j \<in> set ks then g j else [])"
  using assms
proof (induction ks)
  case Nil
  then show ?case by simp
next
  case (Cons k ks)
  have here: "filter (\<lambda>x. key x = c j) (g k) = (if j = k then g k else [])"
  proof (cases "j = k")
    case True
    then show ?thesis using Cons.prems(3) [of k] by (simp add: filter_id_conv)
  next
    case False
    then have "c k \<noteq> c j" using Cons.prems(2) by (auto dest: injD)
    then show ?thesis using Cons.prems(3) [of k] False by (simp add: filter_empty_conv)
  qed
  have rest: "filter (\<lambda>x. key x = c j) (concat (map g ks)) = (if j \<in> set ks then g j else [])"
    using Cons.prems by (intro Cons.IH) simp_all
  show ?case using here rest Cons.prems(1) by auto
qed

lemma preview_in_zone_shape:
  assumes "2 \<le> length teams"
  shows "preview_in_zone tz t teams =
     concat (map (\<lambda>k. map (preview_of k (UTC tz (addDays (start (LocalTime tz t)) (int k * 7))))
                      (matchups (length (items_of teams) div 2) (length (items_of teams))
                         (rotation_at k (items_of teams))))
               [0..<length (items_of teams) - 1])"
proof -
  have upd: "(preview_of k d p)\<lparr>scheduledAt := UTC tz (scheduledAt (preview_of k d p))\<rparr> =
             preview_of k (UTC tz d) p" for k d p
    by (simp add: preview_of_def)
  show ?thesis
    unfolding preview_in_zone_def preview_shape [OF assms]
    by (simp add: map_concat comp_def upd)
qed

lemma POST_in_zone_shape:
  assumes "serves body findMany create teams" "2 \<le> length teams"
  shows "POST_in_zone tz t (Inr body) findMany create =
     Inr (concat (map (\<lambda>k. map (fixture_of (the (body ''leagueId''))
                               (UTC tz (addDays (start (LocalTime tz t)) (int k * 7))))
                      (matchups (length (items_of teams) div 2) (length (items_of teams))
                         (rotation_at k (items_of teams))))
               [0..<length (items_of teams) - 1]))"
proof -
  let ?g = "\<lambda>d. d\<lparr>scheduled_at := UTC tz (scheduled_at d)\<rparr>"
  have c: "(\<lambda>d. create (?g d)) = (\<lambda>d. Inr (?g d))"
    using assms(1) by (simp add: serves_def)
  have g: "?g (fixture_of lid d p) = fixture_of lid (UTC tz d) p" for lid d p
    by (simp add: fixture_of_def)
  have rounds: "POST_rounds (\<lambda>d. Inr (?g d)) r rounds half n s lid rot cf =
     Inr (cf @ concat (map (\<lambda>k. map (fixture_of lid (UTC tz (addDays s (int k * 7))))
                              (matchups half n (rotation_at (k - r) rot))) [r..<rounds]))"
    for r rounds half n s lid rot cf
    using POST_rounds_unfold_stored [of "\<lambda>d. Inr (?g d)" ?g r rounds half n s lid rot cf]
    by (simp add: g)
  show ?thesis
    using assms unfolding POST_in_zone_def c
    by (simp add: serves_def POST_def Let_def copy_teams items_of_def rounds)
qed

lemma UTC_dates_inj: "inj (\<lambda>k. UTC tz (addDays s (int k * 7)))"
  by (simp add: inj_on_def UTC_def addDays_def msPerDay_def)

text \<open>
  Claim C4, amended. For every roster of at least two teams (the storage service working)
  and every instant, whatever the zones of the browser and of the server, the handler
  creates and the preview shows the same pairings in the same order, and round by round
  (the handler's round \<open>k\<close> being the fixtures of its \<open>k\<close>-th date) the same pairings in the
  same order. When browser and server are in the same time zone, the two schedules also
  carry the same instant for every entry.
\<close>

theorem preview_agrees_with_server:
  assumes "serves body findMany create teams" "2 \<le> length teams"
  shows "\<exists>fs. POST_in_zone zs t (Inr body) findMany create = Inr fs
       \<and> map fixture_pairing fs = map preview_pairing (preview_in_zone zc t teams)
       \<and> (\<forall>k. map fixture_pairing
                 (filter (\<lambda>f. scheduled_at f =
                            UTC zs (addDays (start (LocalTime zs t)) (int k * 7))) fs) =
               map preview_pairing
                 (filter (\<lambda>f. round_no f = Suc k) (preview_in_zone zc t teams)))
       \<and> (zs = zc \<longrightarrow> map fixture_triple fs = map preview_triple (preview_in_zone zc t teams))"
proof -
  let ?items = "items_of teams"
  let ?ks = "[0..<length ?items - 1]"
  let ?ms = "\<lambda>k. matchups (length ?items div 2) (length ?items) (rotation_at k ?items)"
  let ?ds = "\<lambda>k. UTC zs (addDays (start (LocalTime zs t)) (int k * 7))"
  let ?dc = "\<lambda>k. UTC zc (addDays (start (LocalTime zc t)) (int k * 7))"
  let ?S = "\<lambda>k. map (fixture_of (the (body ''leagueId'')) (?ds k)) (?ms k)"
  let ?P = "\<lambda>k. map (preview_of k (?dc k)) (?ms k)"
  let ?fs = "concat (map ?S ?ks)"
  have post: "POST_in_zone zs t (Inr body) findMany create = Inr ?fs"
    by (rule POST_in_zone_shape [OF assms])
  have prev: "preview_in_zone zc t teams = concat (map ?P ?ks)"
    by (rule preview_in_zone_shape [OF assms(2)])
  have pt: "fixture_pairing (fixture_of lid d p) = preview_pairing (preview_of k d' p)"
    for lid d p k d'
    by (simp add: fixture_pairing_def preview_pairing_def fixture_of_def preview_of_def)
  have chunk: "map fixture_pairing (?S k) = map preview_pairing (?P k)" for k
    by (simp add: pt [where k = k and d' = "?dc k"])
  have "map fixture_pairing ?fs = concat (map (\<lambda>k. map fixture_pairing (?S k)) ?ks)"
    by (simp add: map_concat comp_def)
  also have "\<dots> = concat (map (\<lambda>k. map preview_pairing (?P k)) ?ks)"
    by (simp only: chunk)
  also have "\<dots> = map preview_pairing (preview_in_zone zc t teams)"
    unfolding prev by (simp add: map_concat comp_def)
  finally have flat: "map fixture_pairing ?fs =
      map preview_pairing (preview_in_zone zc t teams)" .
  have rounds: "map fixture_pairing (filter (\<lambda>f. scheduled_at f = ?ds k) ?fs) =
        map preview_pairing (filter (\<lambda>f. round_no f = Suc k) (preview_in_zone zc t teams))" for k
  proof -
    have s: "filter (\<lambda>f. scheduled_at f = ?ds k) ?fs = (if k \<in> set ?ks then ?S k else [])"
      by (rule filter_chunk_at [where c = ?ds]) (auto simp: UTC_dates_inj fixture_of_def)
    have p: "filter (\<lambda>f. round_no f = Suc k) (concat (map ?P ?ks)) =
             (if k \<in> set ?ks then ?P k else [])"
      by (rule filter_chunk_at [where c = Suc]) (auto simp: preview_of_def)
    show ?thesis unfolding prev s p using chunk [of k] by simp
  qed
  have tr: "fixture_triple (fixture_of lid d p) = (team_id (fst p), team_id (snd p), d)"
    "preview_triple (preview_of k d p) = (team_id (fst p), team_id (snd p), d)"
    for lid d p k
    by (simp_all add: fixture_triple_def preview_triple_def fixture_of_def preview_of_def)
  have same: "map fixture_triple ?fs = map preview_triple (preview_in_zone zc t teams)"
    if "zs = zc"
  proof -
    have "map fixture_triple ?fs = concat (map (\<lambda>k. map fixture_triple (?S k)) ?ks)"
      by (simp add: map_concat comp_def)
    also have "\<dots> = concat (map (\<lambda>k. map preview_triple (?P k)) ?ks)"
      unfolding that by (simp add: tr comp_def)
    also have "\<dots> = map preview_triple (preview_in_zone zc t teams)"
      unfolding prev by (simp add: map_concat comp_def)
    finally show ?thesis .
  qed
  show ?thesis
    using post flat rounds same by blast
qed

text \<open>The theorem at a league of three teams, browser and server both at UTC+5:30.\<close>

theorem preview_agrees_with_server_witness:
  "serves body1 (\<lambda>l. Inr roster3) Inr roster3 \<and> 2 \<le> length roster3
   \<and> (19800000 :: zone) = 19800000
   \<and> (\<exists>fs. POST_in_zone 19800000 1793993400000 (Inr body1) (\<lambda>l. Inr roster3) Inr = Inr fs
         \<and> map fixture_pairing fs =
             map preview_pairing (preview_in_zone 19800000 1793993400000 roster3)
         \<and> map fixture_triple fs =
             map preview_triple (preview_in_zone 19800000 1793993400000 roster3))"
proof -
  have b: "serves body1 (\<lambda>l. Inr roster3) Inr roster3"
    by (simp add: serves_def)
  have l: "2 \<le> length roster3" by simp
  note t = preview_agrees_with_server [OF b l, where zs = 19800000 and zc = 19800000
      and t = 1793993400000]
  show ?thesis using t b l by blast
qed

text \<open>
  The claim as first stated fails on the dates. At the instant 2026-11-06T19:30Z it is
  Saturday 01:00 in a browser at UTC+5:30 and Friday 19:30 on a server at UTC: the preview
  shows the first round at 2026-11-14T04:30Z, the handler stores it at 2026-11-07T10:00Z.
  It also fails below two teams, where the preview returns the empty schedule and the
  handler answers 400.
\<close>

theorem zones_disagree_counterexample:
  "preview_in_zone 19800000 1793993400000 roster2 =
     [\<lparr>round_no = 1, home = mk_team ''A'' ''Ants'', away = mk_team ''B'' ''Bees'',
       scheduledAt = 1794630600000\<rparr>]
   \<and> POST_in_zone 0 1793993400000 (Inr body1) (\<lambda>l. Inr roster2) Inr =
     Inr [\<lparr>leagueId = JStr ''L1'', homeTeamId = ''A'', awayTeamId = ''B'',
           scheduled_at = 1794045600000, status = SCHEDULED\<rparr>]
   \<and> (1794630600000 :: date) \<noteq> 1794045600000
   \<and> preview_in_zone 0 1793993400000 [mk_team ''A'' ''Ants''] = []
   \<and> POST_in_zone 0 1793993400000 (Inr body1) (\<lambda>l. Inr [mk_team ''A'' ''Ants'']) Inr =
     Inl (HttpError ''At least two teams are required'' 400)"
  by code_simp

text \<open>
  Claim C6. Every fixture of round index \<open>k\<close> (round number \<open>k + 1\<close>) is dated the first
  round's date moved by \<open>k * 7\<close> days: \<open>7 k\<close> calendar days later, at the same time of day.
  Round index 0 has the date \<open>start now\<close> itself. The fixtures the handler creates carry,
  position by position, the dates of the preview.
\<close>

theorem round_dates_weekly:
  "(\<forall>f \<in> set (generateRoundRobinPreview now teams).
      1 \<le> round_no f
    \<and> scheduledAt f = addDays (start now) (int (round_no f - 1) * 7)
    \<and> Day (scheduledAt f) = Day (start now) + int (round_no f - 1) * 7
    \<and> TimeWithinDay (scheduledAt f) = TimeWithinDay (start now))
   \<and> addDays (start now) (int 0 * 7) = start now
   \<and> (serves body findMany create teams \<longrightarrow>
        map scheduled_at (created (POST now (Inr body) findMany create)) =
        map (\<lambda>f. addDays (start now) (int (round_no f - 1) * 7))
          (generateRoundRobinPreview now teams))"
proof -
  have a: "1 \<le> round_no f
    \<and> scheduledAt f = addDays (start now) (int (round_no f - 1) * 7)
    \<and> Day (scheduledAt f) = Day (start now) + int (round_no f - 1) * 7
    \<and> TimeWithinDay (scheduledAt f) = TimeWithinDay (start now)"
    if "f \<in> set (generateRoundRobinPreview now teams)" for f
    using preview_dates [OF that] by (simp add: Day_addDays TimeWithinDay_addDays)
  have b: "addDays (start now) (int 0 * 7) = start now" by (simp add: addDays_def)
  have c: "map scheduled_at (created (POST now (Inr body) findMany create)) =
        map (\<lambda>f. addDays (start now) (int (round_no f - 1) * 7))
          (generateRoundRobinPreview now teams)"
    if h: "serves body findMany create teams"
  proof -
    have "map scheduled_at (created (POST now (Inr body) findMany create)) =
          map (\<lambda>t. snd (snd t)) (map fixture_triple (created (POST now (Inr body) findMany create)))"
      by (simp add: fixture_triple_def comp_def)
    also have "\<dots> = map (\<lambda>t. snd (snd t)) (map preview_triple (generateRoundRobinPreview now teams))"
      by (simp only: triples_agree [where body = body and findMany = findMany
            and teams = teams, OF h])
    also have "\<dots> = map scheduledAt (generateRoundRobinPreview now teams)"
      by (simp add: preview_triple_def comp_def)
    also have "\<dots> = map (\<lambda>f. addDays (start now) (int (round_no f - 1) * 7))
          (generateRoundRobinPreview now teams)"
      using preview_dates by (intro map_cong refl) blast
    finally show ?thesis .
  qed
  show ?thesis using a b c by blast
qed

text \<open>The theorem at a league of three teams: three rounds, one week apart.\<close>

theorem round_dates_weekly_witness:
  "set (generateRoundRobinPreview 0 roster3) \<noteq> {}
   \<and> serves body1 (\<lambda>l. Inr roster3) Inr roster3
   \<and> map scheduledAt (generateRoundRobinPreview 0 roster3) =
       [208800000, 813600000, 1418400000]
   \<and> map scheduled_at (created (POST 0 (Inr body1) (\<lambda>l. Inr roster3) Inr)) =
       map (\<lambda>f. addDays (start 0) (int (round_no f - 1) * 7)) (generateRoundRobinPreview 0 roster3)"
proof -
  have b: "serves body1 (\<lambda>l. Inr roster3) Inr roster3"
    by (simp add: serves_def)
  have e: "map scheduledAt (generateRoundRobinPreview 0 roster3) =
       [208800000, 813600000, 1418400000]"
    by code_simp
  then have n: "set (generateRoundRobinPreview 0 roster3) \<noteq> {}" by auto
  note t = round_dates_weekly [where body = body1 and findMany = "\<lambda>l. Inr roster3" and create = Inr
      and teams = roster3 and now = 0]
  show ?thesis using t b e n by blast
qed

text \<open>
  Claim C7. The output of either generator is a function of its arguments, and of \<open>now\<close> only
  through its calendar day: two invocations on the same roster (and request) at times of the
  same day, in particular at the same \<open>now\<close>, return the same pairings in the same order with
  the same dates.
\<close>

theorem schedule_depends_on_day_only:
  assumes "Day now = Day now'"
  shows "generateRoundRobinPreview now teams = generateRoundRobinPreview now' teams
       \<and> POST now req findMany create = POST now' req findMany create"
  unfolding generateRoundRobinPreview_def POST_def start_cong [OF assms] by simp

text \<open>The theorem at two instants of 1970-01-01.\<close>

theorem schedule_depends_on_day_only_witness:
  "Day 0 = Day 1 \<and> generateRoundRobinPreview 0 roster3 = generateRoundRobinPreview 1 roster3
   \<and> POST 0 (Inr body1) (\<lambda>l. Inr roster3) Inr = POST 1 (Inr body1) (\<lambda>l. Inr roster3) Inr"
proof -
  have d: "Day 0 = Day 1" by (simp add: Day_def msPerDay_def)
  show ?thesis
    using d schedule_depends_on_day_only [OF d, where teams = roster3 and req = "Inr body1"
        and findMany = "\<lambda>l. Inr roster3" and create = Inr]
    by blast
qed

text \<open>
  Claim C8, amended. For every roster of fewer than two teams, the handler answers 400 with
  the text \<open>At least two teams are required\<close> and creates no fixture; the preview returns the
  empty schedule, as an ordinary result and not as an error.
\<close>

theorem too_few_teams:
  assumes "length teams < 2"
  shows "generateRoundRobinPreview now teams = []
       \<and> (serves body findMany create teams \<longrightarrow>
            POST now (Inr body) findMany create = Inl (HttpError ''At least two teams are required'' 400)
          \<and> created (POST now (Inr body) findMany create) = [])"
  using assms POST_short [of body findMany create teams now]
  by (simp add: preview_short created_def)

text \<open>The theorem at a roster of one team.\<close>

theorem too_few_teams_witness:
  "length [mk_team ''A'' ''Ants''] < 2
   \<and> serves body1 (\<lambda>l. Inr [mk_team ''A'' ''Ants'']) Inr [mk_team ''A'' ''Ants'']
   \<and> generateRoundRobinPreview 0 [mk_team ''A'' ''Ants''] = []
   \<and> POST 0 (Inr body1) (\<lambda>l. Inr [mk_team ''A'' ''Ants'']) Inr =
       Inl (HttpError ''At least two teams are required'' 400)"
proof -
  have l: "length [mk_team ''A'' ''Ants''] < 2" by simp
  have b: "serves body1 (\<lambda>l. Inr [mk_team ''A'' ''Ants'']) Inr [mk_team ''A'' ''Ants'']"
    by (simp add: serves_def)
  show ?thesis
    using l b too_few_teams [OF l, where body = body1
        and findMany = "\<lambda>l. Inr [mk_team ''A'' ''Ants'']" and create = Inr and now = 0]
    by blast
qed

text \<open>
  The claim as first stated has the preview fail with an error on such a roster; its
  \<open>if (teams.length < 2) return [];\<close> returns the empty list instead.
\<close>

theorem preview_returns_empty_counterexample:
  "length ([] :: team list) < 2 \<and> generateRoundRobinPreview 0 [] = []
   \<and> length [mk_team ''A'' ''Ants''] < 2 \<and> generateRoundRobinPreview 0 [mk_team ''A'' ''Ants''] = []"
  by (simp add: generateRoundRobinPreview_def)

text \<open>
  Claim C9, amended. The scheduler takes no policy: the anchor weekday (Saturday), the time
  of day (10:00) and the interval (7 days) are constants of the code. The handler reads only
  \<open>leagueId\<close> from the request, so two requests that agree on it get the same response
  whatever else they carry, and the only error responses are the two 400s, for a missing
  \<open>leagueId\<close> and for fewer than two teams, and the 500 of the \<open>catch\<close> for a throw of
  the request parser or of the storage service. None of them is about a policy.
\<close>

theorem policy_fields_ignored:
  "(body ''leagueId'' = body' ''leagueId'' \<longrightarrow>
      POST now (Inr body) findMany create = POST now (Inr body') findMany create)
   \<and> (\<forall>e. POST now req findMany create = Inl e \<longrightarrow>
          e = HttpError ''Missing leagueId'' 400
        \<or> e = HttpError ''At least two teams are required'' 400
        \<or> (\<exists>err. e = server_error err))"
proof -
  have a: "POST now (Inr body) findMany create = POST now (Inr body') findMany create"
    if "body ''leagueId'' = body' ''leagueId''"
    using that by (simp add: POST_def)
  have b: "e = HttpError ''Missing leagueId'' 400
        \<or> e = HttpError ''At least two teams are required'' 400
        \<or> (\<exists>err. e = server_error err)"
    if "POST now req findMany create = Inl e" for e
    using that by (auto simp: POST_def Let_def split: sum.splits if_splits)
  show ?thesis using a b by blast
qed

text \<open>The theorem at a request with policy fields and at an empty request.\<close>

theorem policy_fields_ignored_witness:
  "body_with_policy ''leagueId'' = body1 ''leagueId''
   \<and> POST 0 (Inr body_with_policy) (\<lambda>l. Inr roster2) Inr =
       POST 0 (Inr body1) (\<lambda>l. Inr roster2) Inr
   \<and> POST 0 (Inr Map.empty) (\<lambda>l. Inr roster2) Inr = Inl (HttpError ''Missing leagueId'' 400)
   \<and> HttpError ''Missing leagueId'' 400 \<noteq> server_error None"
proof -
  have b: "body_with_policy ''leagueId'' = body1 ''leagueId''" by simp
  have m: "POST 0 (Inr Map.empty) (\<lambda>l. Inr roster2) Inr = Inl (HttpError ''Missing leagueId'' 400)"
    "HttpError ''Missing leagueId'' 400 \<noteq> server_error None"
    by (simp_all add: POST_def server_error_def)
  show ?thesis
    using b m policy_fields_ignored [where body = body_with_policy and body' = body1
        and now = 0 and findMany = "\<lambda>l. Inr roster2" and create = Inr]
    by blast
qed

text \<open>
  The claim as first stated fails: a request carrying a negative round interval and an
  anchor weekday of 9 is not rejected; the fixture is scheduled on the usual Saturday.
\<close>

theorem malformed_policy_accepted_counterexample:
  "body_with_policy ''roundIntervalDays'' = Some (JNum (- 7))
   \<and> body_with_policy ''anchorWeekday'' = Some (JNum 9)
   \<and> POST 0 (Inr body_with_policy) (\<lambda>l. Inr roster2) Inr =
       Inr [\<lparr>leagueId = JStr ''L1'', homeTeamId = ''A'', awayTeamId = ''B'',
             scheduled_at = 208800000, status = SCHEDULED\<rparr>]"
  by code_simp

section \<open>One match per team and round\<close>

lemma distinct_mirror:
  assumes "h \<le> h0" "m = 2 * h0 - 1"
  shows "distinct (concat (map (\<lambda>i. [i, m - i]) [0..<h]))"
  using assms
proof (induction h)
  case 0
  then show ?case by simp
next
  case (Suc h)
  then have IH: "distinct (concat (map (\<lambda>i. [i, m - i]) [0..<h]))" by simp
  have "h \<noteq> m - h" using Suc.prems by auto
  moreover have "h \<notin> set (concat (map (\<lambda>i. [i, m - i]) [0..<h]))"
    using Suc.prems by auto
  moreover have "m - h \<notin> set (concat (map (\<lambda>i. [i, m - i]) [0..<h]))"
    using Suc.prems by auto
  ultimately show ?case using IH by simp
qed

lemma distinct_round_seats:
  assumes "0 < h"
  shows "distinct (concat (map (\<lambda>p. [fst p, snd p]) (round_slots h k)))"
proof -
  let ?m = "2 * h - 1"
  let ?xs = "concat (map (\<lambda>i. [i, ?m - i]) [0..<h])"
  have eq: "concat (map (\<lambda>p. [fst p, snd p]) (round_slots h k)) = map (seat ?m k) ?xs"
    by (simp add: round_slots_def map_concat comp_def)
  have m: "0 < ?m" using assms by simp
  have "set ?xs \<subseteq> {0..?m}" by auto
  moreover have "inj_on (seat ?m k) {0..?m}"
    using seat_inj [OF m] by (auto simp: inj_on_def)
  ultimately have "inj_on (seat ?m k) (set ?xs)" by (rule inj_on_subset [rotated])
  moreover have "distinct ?xs" by (rule distinct_mirror [of h h]) simp_all
  ultimately show ?thesis unfolding eq by (simp only: distinct_map)
qed

lemma distinct_round_ids:
  assumes "distinct (concat (map (\<lambda>p. [fst p, snd p]) slots))"
    and "\<forall>p\<in>set slots. fst p < length xs \<and> snd p < length xs"
    and inj: "\<And>i j. i < length xs \<Longrightarrow> j < length xs \<Longrightarrow> xs ! i = xs ! j \<Longrightarrow> xs ! i \<noteq> B \<Longrightarrow> i = j"
  shows "distinct (concat (map (\<lambda>p. [xs ! fst p, xs ! snd p])
           (filter (\<lambda>p. xs ! fst p \<noteq> B \<and> xs ! snd p \<noteq> B) slots)))"
  using assms(1,2)
proof (induction slots)
  case Nil
  then show ?case by simp
next
  case (Cons p slots)
  let ?rest = "concat (map (\<lambda>p. [xs ! fst p, xs ! snd p])
           (filter (\<lambda>p. xs ! fst p \<noteq> B \<and> xs ! snd p \<noteq> B) slots))"
  have IH: "distinct ?rest" using Cons by simp
  show ?case
  proof (cases "xs ! fst p \<noteq> B \<and> xs ! snd p \<noteq> B")
    case False
    then show ?thesis using IH by auto
  next
    case True
    have bound: "fst p < length xs" "snd p < length xs" using Cons.prems(2) by simp_all
    have fresh: "i \<noteq> fst q \<and> i \<noteq> snd q \<and> fst q < length xs \<and> snd q < length xs"
      if "q \<in> set slots" "i = fst p \<or> i = snd p" for q i
      using that Cons.prems by auto
    have notin: "xs ! i \<notin> set ?rest" if i: "i = fst p \<or> i = snd p" for i
    proof
      assume "xs ! i \<in> set ?rest"
      then obtain q where q: "q \<in> set slots" "xs ! i = xs ! fst q \<or> xs ! i = xs ! snd q"
        by auto
      have "xs ! i \<noteq> B" "i < length xs" using i True bound by auto
      then have "i = fst q \<or> i = snd q"
        using q(2) fresh [OF q(1) i] inj [of i "fst q"] inj [of i "snd q"] by auto
      then show False using fresh [OF q(1) i] by simp
    qed
    have "fst p \<noteq> snd p" using Cons.prems(1) by simp
    then have "xs ! fst p \<noteq> xs ! snd p"
      using inj [of "fst p" "snd p"] bound True by auto
    then show ?thesis using True IH notin by simp
  qed
qed

lemma item_ids_inj:
  assumes d: "distinct (map team_id teams)"
    and ij: "i < length (items_of teams)" "j < length (items_of teams)"
    and eq: "map team_id (items_of teams) ! i = map team_id (items_of teams) ! j"
    and nb: "map team_id (items_of teams) ! i \<noteq> ''BYE''"
  shows "i = j"
proof (cases "length teams mod 2 = 1")
  case False
  then have "items_of teams = teams" by (simp add: items_of_def)
  then have "map team_id teams ! i = map team_id teams ! j" "i < length (map team_id teams)"
    "j < length (map team_id teams)"
    using ij eq by simp_all
  then show ?thesis using nth_eq_iff_index_eq [OF d, of i j] by simp
next
  case True
  then have ids: "map team_id (items_of teams) = map team_id teams @ [''BYE'']"
    and len: "length (items_of teams) = Suc (length teams)"
    by (simp_all add: items_of_def BYE_def)
  have i: "i < length teams"
    using nb ij(1) unfolding ids len by (cases "i = length teams") (simp_all add: nth_append)
  have j: "j < length teams"
    using nb eq ij(2) unfolding ids len by (cases "j = length teams") (simp_all add: nth_append)
  have "map team_id teams ! i = map team_id teams ! j"
    using eq i j unfolding ids by (simp add: nth_append)
  then show ?thesis using nth_eq_iff_index_eq [OF d, of i j] i j by simp
qed

lemma round_ids_distinct:
  assumes "2 \<le> length teams" "distinct (map team_id teams)"
  shows "distinct (concat (map (\<lambda>p. [team_id (fst p), team_id (snd p)])
           (matchups (length (items_of teams) div 2) (length (items_of teams))
              (rotation_at k (items_of teams)))))"
proof -
  let ?items = "items_of teams"
  let ?h = "length ?items div 2"
  let ?ids = "map team_id ?items"
  note h = items_of_half [OF assms(1)]
  have rng: "\<forall>p\<in>set (round_slots ?h k). fst p < length ?ids \<and> snd p < length ?ids"
    using round_slots_range [OF h(2)] h(1) by simp
  have "distinct (concat (map (\<lambda>p. [?ids ! fst p, ?ids ! snd p])
           (filter (\<lambda>p. ?ids ! fst p \<noteq> ''BYE'' \<and> ?ids ! snd p \<noteq> ''BYE'') (round_slots ?h k))))"
    using distinct_round_seats [OF h(2)] rng
  proof (rule distinct_round_ids)
    fix i j
    assume "i < length ?ids" "j < length ?ids" "?ids ! i = ?ids ! j" "?ids ! i \<noteq> ''BYE''"
    then show "i = j" using item_ids_inj [OF assms(2), of i j] by simp
  qed
  moreover have "map (\<lambda>p. [team_id (fst p), team_id (snd p)])
           (matchups ?h (2 * ?h) (rotation_at k ?items)) =
        map (\<lambda>p. [?ids ! fst p, ?ids ! snd p])
           (filter (\<lambda>p. ?ids ! fst p \<noteq> ''BYE'' \<and> ?ids ! snd p \<noteq> ''BYE'') (round_slots ?h k))"
  proof -
    have "filter (\<lambda>p. ?ids ! fst p \<noteq> ''BYE'' \<and> ?ids ! snd p \<noteq> ''BYE'') (round_slots ?h k) =
          filter (\<lambda>p. team_id (?items ! fst p) \<noteq> ''BYE'' \<and> team_id (?items ! snd p) \<noteq> ''BYE'')
            (round_slots ?h k)"
      using rng by (intro filter_cong refl) simp
    moreover have nm: "?ids ! fst p = team_id (?items ! fst p) \<and> ?ids ! snd p = team_id (?items ! snd p)"
      if "p \<in> set (round_slots ?h k)" for p
      using that rng by simp
    have "map (\<lambda>p. [?ids ! fst p, ?ids ! snd p]) (filter Q (round_slots ?h k)) =
          map (\<lambda>p. [team_id (?items ! fst p), team_id (?items ! snd p)]) (filter Q (round_slots ?h k))"
      for Q
      by (intro map_cong refl) (simp add: nm)
    ultimately show ?thesis
      by (simp add: matchups_by_seats [OF h] comp_def)
  qed
  ultimately show ?thesis using h(1) by simp
qed

lemma filter_chunks_none:
  assumes "\<And>k x. k \<in> set ks \<Longrightarrow> x \<in> set (g k) \<Longrightarrow> key x \<noteq> v"
  shows "filter (\<lambda>x. key x = v) (concat (map g ks)) = []"
  using assms by (auto simp: filter_empty_conv)

lemma filter_chunks:
  assumes "distinct ks" "inj_on c (set ks)"
    and "\<And>k x. k \<in> set ks \<Longrightarrow> x \<in> set (g k) \<Longrightarrow> key x = c k"
  shows "filter (\<lambda>x. key x = v) (concat (map g ks)) = []
       \<or> (\<exists>k\<in>set ks. filter (\<lambda>x. key x = v) (concat (map g ks)) = g k)"
  using assms
proof (induction ks)
  case Nil
  then show ?case by simp
next
  case (Cons k ks)
  show ?case
  proof (cases "c k = v")
    case True
    have "key x \<noteq> v" if "k' \<in> set ks" "x \<in> set (g k')" for k' x
    proof -
      have "c k' \<noteq> c k" using that(1) Cons.prems(1,2) by (auto simp: inj_on_def)
      then show ?thesis using Cons.prems(3) [of k' x] that True by simp
    qed
    then have "filter (\<lambda>x. key x = v) (concat (map g ks)) = []"
      by (rule filter_chunks_none)
    moreover have "filter (\<lambda>x. key x = v) (g k) = g k"
      using Cons.prems(3) [of k] True by (simp add: filter_id_conv)
    ultimately show ?thesis by simp
  next
    case False
    then have "filter (\<lambda>x. key x = v) (g k) = []"
      using Cons.prems(3) [of k] by (simp add: filter_empty_conv)
    moreover have "filter (\<lambda>x. key x = v) (concat (map g ks)) = []
       \<or> (\<exists>k\<in>set ks. filter (\<lambda>x. key x = v) (concat (map g ks)) = g k)"
      using Cons.prems by (intro Cons.IH) (simp_all add: inj_on_def)
    ultimately show ?thesis by auto
  qed
qed

lemma preview_round_distinct:
  assumes "distinct (map team_id teams)"
  shows "distinct (concat (map (\<lambda>f. [team_id (home f), team_id (away f)])
           (filter (\<lambda>f. round_no f = r) (generateRoundRobinPreview now teams))))"
proof (cases "2 \<le> length teams")
  case False
  then show ?thesis by (simp add: preview_short)
next
  case True
  let ?items = "items_of teams"
  let ?g = "\<lambda>k. map (preview_of k (addDays (start now) (int k * 7)))
                  (matchups (length ?items div 2) (length ?items) (rotation_at k ?items))"
  let ?ks = "[0..<length ?items - 1]"
  have "filter (\<lambda>f. round_no f = r) (concat (map ?g ?ks)) = []
       \<or> (\<exists>k\<in>set ?ks. filter (\<lambda>f. round_no f = r) (concat (map ?g ?ks)) = ?g k)"
    by (rule filter_chunks [where c = Suc]) (auto simp: preview_of_def)
  moreover have "distinct (concat (map (\<lambda>f. [team_id (home f), team_id (away f)]) (?g k)))" for k
    using round_ids_distinct [OF True assms, of k] by (simp add: comp_def preview_of_def)
  ultimately show ?thesis unfolding preview_shape [OF True] by auto
qed

lemma POST_round_distinct:
  assumes "distinct (map team_id teams)"
    "serves body findMany create teams"
  shows "distinct (concat (map (\<lambda>f. [homeTeamId f, awayTeamId f])
           (filter (\<lambda>f. scheduled_at f = d) (created (POST now (Inr body) findMany create)))))"
proof (cases "2 \<le> length teams")
  case False
  then show ?thesis
    using POST_short [OF assms(2)]
    by (simp add: created_def)
next
  case True
  let ?items = "items_of teams"
  let ?g = "\<lambda>k. map (fixture_of (the (body ''leagueId'')) (addDays (start now) (int k * 7)))
                  (matchups (length ?items div 2) (length ?items) (rotation_at k ?items))"
  let ?ks = "[0..<length ?items - 1]"
  have "filter (\<lambda>f. scheduled_at f = d) (concat (map ?g ?ks)) = []
       \<or> (\<exists>k\<in>set ?ks. filter (\<lambda>f. scheduled_at f = d) (concat (map ?g ?ks)) = ?g k)"
    by (rule filter_chunks [where c = "\<lambda>k. addDays (start now) (int k * 7)"])
       (auto simp: fixture_of_def inj_on_def addDays_inj)
  moreover have "distinct (concat (map (\<lambda>f. [homeTeamId f, awayTeamId f]) (?g k)))" for k
    using round_ids_distinct [OF True assms(1), of k] by (simp add: comp_def fixture_of_def)
  ultimately show ?thesis
    unfolding POST_shape [OF assms(2) True]
    by (auto simp: created_def)
qed

text \<open>
  Claim C2. For every roster with pairwise-distinct identifiers and every round, the
  identifiers of the round's matchups, home and away listed together, are pairwise distinct:
  no team plays twice in a round. In particular home and away differ in every matchup.
  A round of the preview is the fixtures of one round number; a round of the handler is the
  fixtures of one date.
\<close>

theorem one_match_per_round:
  assumes "distinct (map team_id teams)"
  shows "distinct (concat (map (\<lambda>f. [team_id (home f), team_id (away f)])
           (filter (\<lambda>f. round_no f = r) (generateRoundRobinPreview now teams))))
       \<and> (\<forall>f\<in>set (generateRoundRobinPreview now teams). team_id (home f) \<noteq> team_id (away f))
       \<and> (serves body findMany create teams \<longrightarrow>
            distinct (concat (map (\<lambda>f. [homeTeamId f, awayTeamId f])
              (filter (\<lambda>f. scheduled_at f = d) (created (POST now (Inr body) findMany create)))))
          \<and> (\<forall>f\<in>set (created (POST now (Inr body) findMany create)). homeTeamId f \<noteq> awayTeamId f))"
proof -
  have a: "team_id (home f) \<noteq> team_id (away f)"
    if "f \<in> set (generateRoundRobinPreview now teams)" for f
  proof -
    have "f \<in> set (filter (\<lambda>g. round_no g = round_no f) (generateRoundRobinPreview now teams))"
      using that by simp
    then have "distinct [team_id (home f), team_id (away f)]"
      using preview_round_distinct [OF assms, of "round_no f" now]
      by (auto simp only: distinct_concat_iff set_map)
    then show ?thesis by simp
  qed
  have b: "homeTeamId f \<noteq> awayTeamId f"
    if h: "serves body findMany create teams"
      and f: "f \<in> set (created (POST now (Inr body) findMany create))" for f
  proof -
    have "f \<in> set (filter (\<lambda>g. scheduled_at g = scheduled_at f) (created (POST now (Inr body) findMany create)))"
      using f by simp
    then have "distinct [homeTeamId f, awayTeamId f]"
      using POST_round_distinct [OF assms h, of "scheduled_at f" now]
      by (auto simp only: distinct_concat_iff set_map)
    then show ?thesis by simp
  qed
  show ?thesis
    using a b preview_round_distinct [OF assms, of r now]
      POST_round_distinct [where body = body and findMany = findMany and create = create
        and teams = teams and d = d and now = now, OF assms]
    by blast
qed

text \<open>The theorem at a roster of four teams and its first round.\<close>

theorem one_match_per_round_witness:
  "distinct (map team_id roster4)
   \<and> serves body1 (\<lambda>l. Inr roster4) Inr roster4
   \<and> concat (map (\<lambda>f. [team_id (home f), team_id (away f)])
         (filter (\<lambda>f. round_no f = 1) (generateRoundRobinPreview 0 roster4))) =
       [''A'', ''D'', ''B'', ''C'']
   \<and> distinct (concat (map (\<lambda>f. [team_id (home f), team_id (away f)])
         (filter (\<lambda>f. round_no f = 1) (generateRoundRobinPreview 0 roster4))))
   \<and> generateRoundRobinPreview 0 roster4 ! 0 \<in> set (generateRoundRobinPreview 0 roster4)
   \<and> team_id (home (generateRoundRobinPreview 0 roster4 ! 0)) \<noteq>
       team_id (away (generateRoundRobinPreview 0 roster4 ! 0))
   \<and> concat (map (\<lambda>f. [homeTeamId f, awayTeamId f])
         (filter (\<lambda>f. scheduled_at f = start 0) (created (POST 0 (Inr body1) (\<lambda>l. Inr roster4) Inr)))) =
       [''A'', ''D'', ''B'', ''C'']
   \<and> distinct (concat (map (\<lambda>f. [homeTeamId f, awayTeamId f])
         (filter (\<lambda>f. scheduled_at f = start 0) (created (POST 0 (Inr body1) (\<lambda>l. Inr roster4) Inr)))))
   \<and> created (POST 0 (Inr body1) (\<lambda>l. Inr roster4) Inr) ! 0 \<in> set (created (POST 0 (Inr body1) (\<lambda>l. Inr roster4) Inr))
   \<and> homeTeamId (created (POST 0 (Inr body1) (\<lambda>l. Inr roster4) Inr) ! 0) \<noteq>
       awayTeamId (created (POST 0 (Inr body1) (\<lambda>l. Inr roster4) Inr) ! 0)"
proof -
  have h: "distinct (map team_id roster4)" by simp
  have b: "serves body1 (\<lambda>l. Inr roster4) Inr roster4"
    by (simp add: serves_def)
  have e: "concat (map (\<lambda>f. [team_id (home f), team_id (away f)])
         (filter (\<lambda>f. round_no f = 1) (generateRoundRobinPreview 0 roster4))) =
       [''A'', ''D'', ''B'', ''C'']"
    "concat (map (\<lambda>f. [homeTeamId f, awayTeamId f])
         (filter (\<lambda>f. scheduled_at f = start 0) (created (POST 0 (Inr body1) (\<lambda>l. Inr roster4) Inr)))) =
       [''A'', ''D'', ''B'', ''C'']"
    by code_simp+
  have "0 < length (generateRoundRobinPreview 0 roster4)"
    "0 < length (created (POST 0 (Inr body1) (\<lambda>l. Inr roster4) Inr))"
    by code_simp+
  then have m: "generateRoundRobinPreview 0 roster4 ! 0 \<in> set (generateRoundRobinPreview 0 roster4)"
    "created (POST 0 (Inr body1) (\<lambda>l. Inr roster4) Inr) ! 0 \<in> set (created (POST 0 (Inr body1) (\<lambda>l. Inr roster4) Inr))"
    by (simp_all only: nth_mem)
  note t = one_match_per_round [OF h, where now = 0 and body = body1
      and findMany = "\<lambda>l. Inr roster4" and create = Inr and r = 1 and d = "start 0"]
  show ?thesis using t h b e m by blast
qed

section \<open>Rounds and the reserved identifier\<close>

lemma round_slots_mem:
  "i < h \<Longrightarrow> m = 2 * h - 1 \<Longrightarrow> (seat m k i, seat m k (m - i)) \<in> set (round_slots h k)"
  by (auto simp: round_slots_def image_iff)

lemma matchups_nonempty:
  assumes "2 \<le> length teams" "''BYE'' \<notin> set (map team_id teams)"
  shows "matchups (length (items_of teams) div 2) (length (items_of teams))
           (rotation_at k (items_of teams)) \<noteq> []"
proof -
  define items where "items = items_of teams"
  define h where "h = length items div 2"
  define m where "m = 2 * h - 1"
  have h: "length items = 2 * h" "0 < h"
    using items_of_half [OF assms(1)] by (simp_all add: items_def h_def)
  have m0: "0 < m" using h(2) by (simp add: m_def)
  have ok: "team_id (items ! j) \<noteq> ''BYE''" if "j < length teams" for j
  proof -
    have "items ! j = teams ! j" using that by (simp add: items_def items_of_def nth_append)
    moreover have "team_id (teams ! j) \<in> set (map team_id teams)" using that by simp
    ultimately show ?thesis using assms(2) by metis
  qed
  have s0: "(0, seat m k m) \<in> set (round_slots h k)"
    using round_slots_mem [OF h(2) m_def, of k] by (simp add: seat_0)
  have "\<exists>p\<in>set (round_slots h k). fst p < length teams \<and> snd p < length teams"
  proof (cases "length teams mod 2 = 1")
    case False
    then have "length teams = Suc m" using h by (simp add: items_def items_of_def m_def)
    then have "fst (0, seat m k m) < length teams \<and> snd (0, seat m k m) < length teams"
      using seat_le [OF m0, of k m] by simp
    then show ?thesis using s0 by blast
  next
    case True
    then have len: "length teams = m" using h by (simp add: items_def items_of_def m_def)
    then have h2: "1 < h" using assms(1) m_def by simp
    have s1: "(seat m k 1, seat m k (m - 1)) \<in> set (round_slots h k)"
      using h2 m_def by (rule round_slots_mem)
    show ?thesis
    proof (cases "seat m k m = m")
      case False
      then have "fst (0, seat m k m) < length teams \<and> snd (0, seat m k m) < length teams"
        using seat_le [OF m0, of k m] m0 len by simp
      then show ?thesis using s0 by blast
    next
      case True
      have "1 < m" using h2 by (simp add: m_def)
      then have "seat m k 1 \<noteq> seat m k m" "seat m k (m - 1) \<noteq> seat m k m"
        using seat_inj [OF m0, of 1 m k] seat_inj [OF m0, of "m - 1" m k] by auto
      then have "fst (seat m k 1, seat m k (m - 1)) < length teams
               \<and> snd (seat m k 1, seat m k (m - 1)) < length teams"
        using True seat_le [OF m0, of k 1] seat_le [OF m0, of k "m - 1"] len by simp
      then show ?thesis using s1 by blast
    qed
  qed
  then obtain p where "p \<in> set (round_slots h k)"
    "team_id (items ! fst p) \<noteq> ''BYE'' \<and> team_id (items ! snd p) \<noteq> ''BYE''"
    using ok by blast
  then have "filter (\<lambda>p. team_id (items ! fst p) \<noteq> ''BYE'' \<and> team_id (items ! snd p) \<noteq> ''BYE'')
               (round_slots h k) \<noteq> []"
    by (auto simp: filter_empty_conv)
  then have "matchups h (2 * h) (rotation_at k items) \<noteq> []"
    using matchups_by_seats [OF h, of k] by simp
  then show ?thesis using h(1) by (simp add: items_def h_def)
qed

lemma rounds_of_roster:
  "2 \<le> length teams \<Longrightarrow>
   length (items_of teams) - 1 = (if even (length teams) then length teams - 1 else length teams)"
  by (auto simp: items_of_def odd_iff_mod_2_eq_one)

lemma chunk_keys:
  assumes "\<And>k. k \<in> set ks \<Longrightarrow> g k \<noteq> [] \<and> (\<forall>x\<in>set (g k). key x = c k)"
  shows "key ` set (concat (map g ks)) = c ` set ks"
proof (intro equalityI subsetI)
  fix v assume "v \<in> key ` set (concat (map g ks))"
  then show "v \<in> c ` set ks" using assms by auto
next
  fix v assume "v \<in> c ` set ks"
  then obtain k where k: "k \<in> set ks" "v = c k" by auto
  then obtain x where "x \<in> set (g k)" using assms [OF k(1)] by (cases "g k") auto
  then have "x \<in> set (concat (map g ks))" "key x = v" using assms [OF k(1)] k by auto
  then show "v \<in> key ` set (concat (map g ks))" by blast
qed

text \<open>
  Claim C3, amended. For every roster of \<open>n \<ge> 2\<close> teams none of whose identifiers is
  \<open>'BYE'\<close>, the round numbers that occur in the preview are exactly \<open>1, \<dots>, n - 1\<close> when \<open>n\<close> is
  even and \<open>1, \<dots>, n\<close> when \<open>n\<close> is odd: that many rounds, each with at least one matchup.
  The handler's fixtures carry exactly that many dates, one per round.
\<close>

theorem round_count:
  assumes "2 \<le> length teams" "''BYE'' \<notin> set (map team_id teams)"
  shows "round_no ` set (generateRoundRobinPreview now teams) =
           {1..(if even (length teams) then length teams - 1 else length teams)}
       \<and> card (round_no ` set (generateRoundRobinPreview now teams)) =
           (if even (length teams) then length teams - 1 else length teams)
       \<and> (serves body findMany create teams \<longrightarrow>
            scheduled_at ` set (created (POST now (Inr body) findMany create)) =
            (\<lambda>k. addDays (start now) (int k * 7)) `
              {0..<(if even (length teams) then length teams - 1 else length teams)}
          \<and> card (scheduled_at ` set (created (POST now (Inr body) findMany create))) =
            (if even (length teams) then length teams - 1 else length teams))"
proof -
  let ?items = "items_of teams"
  let ?R = "if even (length teams) then length teams - 1 else length teams"
  let ?date = "\<lambda>k. addDays (start now) (int k * 7)"
  note ne = matchups_nonempty [OF assms]
  note R = rounds_of_roster [OF assms(1)]
  have "round_no ` set (generateRoundRobinPreview now teams) = Suc ` set [0..<length ?items - 1]"
    unfolding preview_shape [OF assms(1)]
    by (rule chunk_keys) (simp add: ne preview_of_def)
  also have "\<dots> = {1..?R}"
    unfolding R by (simp only: set_upt image_Suc_atLeastLessThan) auto
  finally have p: "round_no ` set (generateRoundRobinPreview now teams) = {1..?R}" .
  have pc: "card (round_no ` set (generateRoundRobinPreview now teams)) = ?R"
    unfolding p by simp
  have "inj_on ?date {0..<?R}"
    by (simp add: inj_on_def addDays_inj)
  then have c: "card (?date ` {0..<?R}) = ?R"
    by (simp only: card_image card_atLeastLessThan)
  have s: "scheduled_at ` set (created (POST now (Inr body) findMany create)) = ?date ` {0..<?R}
         \<and> card (scheduled_at ` set (created (POST now (Inr body) findMany create))) = ?R"
    if h: "serves body findMany create teams"
  proof -
    have "scheduled_at ` set (created (POST now (Inr body) findMany create)) =
          ?date ` set [0..<length ?items - 1]"
      unfolding POST_shape [OF h assms(1)] created_def sum.case
      by (rule chunk_keys) (simp add: ne fixture_of_def)
    then have "scheduled_at ` set (created (POST now (Inr body) findMany create)) =
          ?date ` {0..<?R}"
      unfolding R by simp
    then show ?thesis using c by (simp only:)
  qed
  show ?thesis using p pc s by blast
qed

text \<open>The theorem at a roster of three teams: three rounds.\<close>

theorem round_count_witness:
  "2 \<le> length roster3 \<and> ''BYE'' \<notin> set (map team_id roster3)
   \<and> serves body1 (\<lambda>l. Inr roster3) Inr roster3
   \<and> \<not> even (length roster3)
   \<and> round_no ` set (generateRoundRobinPreview 0 roster3) = {1..3}
   \<and> scheduled_at ` set (created (POST 0 (Inr body1) (\<lambda>l. Inr roster3) Inr)) =
       (\<lambda>k. addDays (start 0) (int k * 7)) ` {0..<3}"
proof -
  have h: "2 \<le> length roster3" "''BYE'' \<notin> set (map team_id roster3)" by simp_all
  have b: "serves body1 (\<lambda>l. Inr roster3) Inr roster3"
    by (simp add: serves_def)
  have o: "\<not> even (length roster3)" "(if even (length roster3) then length roster3 - 1
     else length roster3) = 3" by simp_all
  note t = round_count [OF h, where now = 0 and body = body1 and findMany = "\<lambda>l. Inr roster3" and create = Inr,
      unfolded o(2)]
  show ?thesis using t h b o(1) by blast
qed

text \<open>
  The claim as first stated, without the condition on \<open>'BYE'\<close>, fails: of three teams with
  distinct identifiers, one of them \<open>'BYE'\<close>, only round 2 has a matchup.
\<close>

theorem empty_rounds_counterexample:
  "2 \<le> length roster_bye3 \<and> distinct (map team_id roster_bye3)
   \<and> \<not> even (length roster_bye3)
   \<and> map round_no (generateRoundRobinPreview 0 roster_bye3) = [2]
   \<and> map scheduled_at (created (POST 0 (Inr body1) (\<lambda>l. Inr roster_bye3) Inr)) = [addDays (start 0) (1 * 7)]"
  by code_simp

lemma no_bye_in_preview:
  assumes "f \<in> set (generateRoundRobinPreview now teams)"
  shows "team_id (home f) \<noteq> ''BYE'' \<and> team_id (away f) \<noteq> ''BYE''"
proof (cases "2 \<le> length teams")
  case True
  then show ?thesis
    using assms unfolding preview_shape [OF True]
    by (auto simp: matchups_def real_pair_def preview_of_def)
next
  case False
  then show ?thesis using assms by (simp add: preview_short)
qed

lemma no_bye_in_POST:
  assumes "serves body findMany create teams"
    "f \<in> set (created (POST now (Inr body) findMany create))"
  shows "homeTeamId f \<noteq> ''BYE'' \<and> awayTeamId f \<noteq> ''BYE''"
proof (cases "2 \<le> length teams")
  case True
  then show ?thesis
    using assms(2) unfolding POST_shape [OF assms(1) True]
    by (auto simp: created_def matchups_def real_pair_def fixture_of_def)
next
  case False
  then have "created (POST now (Inr body) findMany create) = []"
    using POST_short [OF assms(1), of now] by (simp add: created_def)
  then show ?thesis using assms(2) by simp
qed

text \<open>
  Claim C10. For every roster with a team whose identifier is \<open>'BYE'\<close>, no emitted matchup
  has that identifier on either side, in the preview and among the fixtures the handler
  creates for the roster, and when the roster has at least two teams with distinct identifiers
  some pair of its teams, the \<open>'BYE'\<close> team with another, is missing from both schedules.
\<close>

theorem bye_named_team_never_plays:
  assumes "''BYE'' \<in> set (map team_id teams)"
  shows "(\<forall>f\<in>set (generateRoundRobinPreview now teams). ''BYE'' \<notin> matchup_ids f)
       \<and> (serves body findMany create teams \<longrightarrow>
            (\<forall>f\<in>set (created (POST now (Inr body) findMany create)). ''BYE'' \<notin> fixture_ids f))
       \<and> (2 \<le> length teams \<and> distinct (map team_id teams) \<longrightarrow>
            (\<exists>b\<in>set (map team_id teams). b \<noteq> ''BYE''
               \<and> {''BYE'', b} \<notin> set (map matchup_ids (generateRoundRobinPreview now teams))
               \<and> (serves body findMany create teams \<longrightarrow>
                    {''BYE'', b} \<notin>
                      set (map fixture_ids (created (POST now (Inr body) findMany create))))))"
proof -
  have p: "''BYE'' \<notin> matchup_ids f" if "f \<in> set (generateRoundRobinPreview now teams)" for f
    using no_bye_in_preview [OF that] by (auto simp: matchup_ids_def)
  have s: "''BYE'' \<notin> fixture_ids f"
    if "serves body findMany create teams"
      "f \<in> set (created (POST now (Inr body) findMany create))" for f
    using no_bye_in_POST [OF that] by (auto simp: fixture_ids_def)
  have c: "\<exists>b\<in>set (map team_id teams). b \<noteq> ''BYE''
               \<and> {''BYE'', b} \<notin> set (map matchup_ids (generateRoundRobinPreview now teams))
               \<and> (serves body findMany create teams \<longrightarrow>
                    {''BYE'', b} \<notin>
                      set (map fixture_ids (created (POST now (Inr body) findMany create))))"
    if n: "2 \<le> length teams" and d: "distinct (map team_id teams)"
  proof -
    have "card (set (map team_id teams)) = length teams"
      using d distinct_card [of "map team_id teams"] by simp
    then have "\<not> set (map team_id teams) \<subseteq> {''BYE''}"
      using n card_mono [of "{''BYE''}" "set (map team_id teams)"] by auto
    then obtain b where b: "b \<in> set (map team_id teams)" "b \<noteq> ''BYE''" by auto
    have "{''BYE'', b} \<notin> set (map matchup_ids (generateRoundRobinPreview now teams))"
    proof
      assume "{''BYE'', b} \<in> set (map matchup_ids (generateRoundRobinPreview now teams))"
      then obtain f where "f \<in> set (generateRoundRobinPreview now teams)"
        "matchup_ids f = {''BYE'', b}" by auto
      then show False using p [of f] by simp
    qed
    moreover have "{''BYE'', b} \<notin>
        set (map fixture_ids (created (POST now (Inr body) findMany create)))"
      if sv: "serves body findMany create teams"
    proof
      assume "{''BYE'', b} \<in> set (map fixture_ids (created (POST now (Inr body) findMany create)))"
      then obtain f where "f \<in> set (created (POST now (Inr body) findMany create))"
        "fixture_ids f = {''BYE'', b}" by auto
      then show False using s [OF sv, of f] by simp
    qed
    ultimately show ?thesis using b by blast
  qed
  show ?thesis
  proof (intro conjI ballI impI)
    fix f assume "f \<in> set (generateRoundRobinPreview now teams)"
    then show "''BYE'' \<notin> matchup_ids f" by (rule p)
  next
    fix f assume "serves body findMany create teams"
      "f \<in> set (created (POST now (Inr body) findMany create))"
    then show "''BYE'' \<notin> fixture_ids f" by (rule s)
  next
    assume "2 \<le> length teams \<and> distinct (map team_id teams)"
    then show "\<exists>b\<in>set (map team_id teams). b \<noteq> ''BYE''
               \<and> {''BYE'', b} \<notin> set (map matchup_ids (generateRoundRobinPreview now teams))
               \<and> (serves body findMany create teams \<longrightarrow>
                    {''BYE'', b} \<notin>
                      set (map fixture_ids (created (POST now (Inr body) findMany create))))"
      using c by (elim conjE)
  qed
qed

text \<open>The theorem at three teams: the only matchup is between the other two.\<close>

theorem bye_named_team_never_plays_witness:
  "''BYE'' \<in> set (map team_id roster_bye3)
   \<and> 2 \<le> length roster_bye3 \<and> distinct (map team_id roster_bye3)
   \<and> serves body1 (\<lambda>l. Inr roster_bye3) Inr roster_bye3
   \<and> map preview_triple (generateRoundRobinPreview 0 roster_bye3) = [(''A'', ''C'', 813600000)]
   \<and> map fixture_triple (created (POST 0 (Inr body1) (\<lambda>l. Inr roster_bye3) Inr)) = [(''A'', ''C'', 813600000)]
   \<and> generateRoundRobinPreview 0 roster_bye3 ! 0 \<in> set (generateRoundRobinPreview 0 roster_bye3)
   \<and> ''BYE'' \<notin> matchup_ids (generateRoundRobinPreview 0 roster_bye3 ! 0)
   \<and> created (POST 0 (Inr body1) (\<lambda>l. Inr roster_bye3) Inr) ! 0 \<in>
       set (created (POST 0 (Inr body1) (\<lambda>l. Inr roster_bye3) Inr))
   \<and> ''BYE'' \<notin> fixture_ids (created (POST 0 (Inr body1) (\<lambda>l. Inr roster_bye3) Inr) ! 0)"
proof -
  have h: "''BYE'' \<in> set (map team_id roster_bye3)" by simp
  have n: "2 \<le> length roster_bye3 \<and> distinct (map team_id roster_bye3)" by simp
  have b: "serves body1 (\<lambda>l. Inr roster_bye3) Inr roster_bye3" by (simp add: serves_def)
  have e: "map preview_triple (generateRoundRobinPreview 0 roster_bye3) = [(''A'', ''C'', 813600000)]
     \<and> map fixture_triple (created (POST 0 (Inr body1) (\<lambda>l. Inr roster_bye3) Inr)) = [(''A'', ''C'', 813600000)]"
    by code_simp
  have "0 < length (generateRoundRobinPreview 0 roster_bye3)"
    "0 < length (created (POST 0 (Inr body1) (\<lambda>l. Inr roster_bye3) Inr))"
    by code_simp+
  then have m: "generateRoundRobinPreview 0 roster_bye3 ! 0 \<in> set (generateRoundRobinPreview 0 roster_bye3)"
    "created (POST 0 (Inr body1) (\<lambda>l. Inr roster_bye3) Inr) ! 0 \<in> set (created (POST 0 (Inr body1) (\<lambda>l. Inr roster_bye3) Inr))"
    by (simp_all only: nth_mem)
  note t = bye_named_team_never_plays [OF h, where now = 0 and body = body1
      and findMany = "\<lambda>l. Inr roster_bye3" and create = Inr]
  show ?thesis using t h n b e m by blast
qed

end
